theory Spec2Isabelle
  imports Complex_Main "HOL-Library.AList"
begin

section \<open>Presence Graph: the inference engine\<close>

text \<open>
  A shallow embedding of \<^verbatim>\<open>graph_engine.py\<close>, \<^verbatim>\<open>model.py\<close>, \<^verbatim>\<open>const.py\<close> and the helpers of
  \<^verbatim>\<open>utils.py\<close> that the engine calls.

  Conventions of the embedding:
  \<^item> a Python \<^verbatim>\<open>dict\<close> is an association list with distinct keys in insertion order;
    \<^verbatim>\<open>d[k] = v\<close> is \<open>AList.update k v d\<close> (an existing key keeps its position, a new one
    is appended), \<^verbatim>\<open>d.get(k)\<close> is \<open>map_of d k\<close>;
  \<^item> a Python \<^verbatim>\<open>set\<close> that is only tested and updated is a HOL set; a set that is
    iterated is a duplicate-free list, and the results about it hold for every order;
  \<^item> a Python \<^verbatim>\<open>float\<close> is the real number it denotes; the sum that \<^verbatim>\<open>_compute_boost\<close>
    compares a score with is rounded to binary64; the sentinel \<^verbatim>\<open>float("-inf")\<close> of
    \<^verbatim>\<open>last_event_ts\<close> is the constructor \<open>NegInf\<close>;
  \<^item> an exception is the \<open>Inl\<close> branch of a sum;
  \<^item> the engine's fields are a record that every method takes and returns; the clock
    \<^verbatim>\<open>time_func\<close> is the argument \<open>now\<close> of the methods that read it.
  The field \<^verbatim>\<open>_link_entities\<close> is written by \<^verbatim>\<open>set_model\<close> and read nowhere; it is left out.
\<close>

subsection \<open>const.py\<close>

definition ATTR_REASON_SENSOR :: string where "ATTR_REASON_SENSOR = ''sensor''"
definition ATTR_REASON_LINK :: string where "ATTR_REASON_LINK = ''link_event''"
definition ATTR_REASON_DECAY :: string where "ATTR_REASON_DECAY = ''decay''"
definition ATTR_REASON_FORCED :: string where "ATTR_REASON_FORCED = ''manual_override''"

definition DEFAULT_TIMEOUT :: int where "DEFAULT_TIMEOUT = 120"
definition DEFAULT_TRAVERSAL_LATENCY :: int where "DEFAULT_TRAVERSAL_LATENCY = 8"
definition DEFAULT_DECAY_THRESHOLD :: real where "DEFAULT_DECAY_THRESHOLD = 2 / 10"
definition MIN_EVENT_DURATION :: real where "MIN_EVENT_DURATION = 5 / 10"
definition LINK_EVENT_DEBOUNCE :: real where "LINK_EVENT_DEBOUNCE = 2"

lemmas reason_defs =
  ATTR_REASON_SENSOR_def ATTR_REASON_LINK_def ATTR_REASON_DECAY_def ATTR_REASON_FORCED_def

lemmas const_defs =
  DEFAULT_TIMEOUT_def DEFAULT_TRAVERSAL_LATENCY_def DEFAULT_DECAY_THRESHOLD_def
  MIN_EVENT_DURATION_def LINK_EVENT_DEBOUNCE_def

subsection \<open>model.py\<close>

record space =
  space_id :: string
  space_name :: string
  include_in_total :: bool
  space_motion_entities :: "string list"
  presence_entities :: "string list"
  timeout_s :: int

record link =
  link_id :: string
  link_name :: string
  from_space :: string
  to_space :: string
  link_motion_entities :: "string list"
  contact_entities :: "string list"
  lock_entities :: "string list"
  traversal_latency_s :: int

text \<open>A timestamp stored in \<^verbatim>\<open>last_event_ts\<close>: \<^verbatim>\<open>float("-inf")\<close> (never) or a finite time.\<close>

datatype stamp = NegInf | At real

record presence_state =
  occupied :: "(string \<times> bool) list"
  scores :: "(string \<times> real) list"
  total_estimated :: int
  last_event_ts :: "(string \<times> stamp) list"
  space_counts :: "(string \<times> int) list"

subsection \<open>utils.py\<close>

text \<open>
  The values an entity state can take (\<^verbatim>\<open>Any\<close> in the source): the predicates below
  distinguish \<^verbatim>\<open>bool\<close>, \<^verbatim>\<open>int\<close>, \<^verbatim>\<open>float\<close> and \<^verbatim>\<open>str\<close>; \<open>PNone\<close> stands for every other
  object. Python tests \<^verbatim>\<open>bool\<close> before \<^verbatim>\<open>int\<close>, so a boolean is never read as a number.
\<close>

datatype pyval = PNone | PBool bool | PInt int | PFloat real | PStr string

datatype error = Invalid string | KeyError string

text \<open>
  \<^verbatim>\<open>str.lower\<close> on characters with code points below 256: the ASCII capitals and the
  Latin-1 capitals (192 to 222 but 215, the multiplication sign) move up by 32.
\<close>

definition lower_char :: "char \<Rightarrow> char" where
  "lower_char c =
     (let n = (of_char c :: nat)
      in if (65 \<le> n \<and> n \<le> 90) \<or> (192 \<le> n \<and> n \<le> 222 \<and> n \<noteq> 215)
         then char_of (n + 32) else c)"

definition lower :: "string \<Rightarrow> string" where
  "lower s = map lower_char s"

fun is_on_state :: "pyval \<Rightarrow> bool" where
  "is_on_state (PBool b) = b"
| "is_on_state (PInt n) = (n > 0)"
| "is_on_state (PFloat x) = (x > 0)"
| "is_on_state (PStr s) =
     (lower s \<in> {''on'', ''open'', ''true'', ''home'', ''locked'', ''unlocked''})"
| "is_on_state PNone = False"

fun state_is_locked :: "pyval \<Rightarrow> bool" where
  "state_is_locked (PBool b) = b"
| "state_is_locked (PStr s) = (lower s \<in> {''on'', ''locked'', ''true''})"
| "state_is_locked _ = False"

text \<open>\<^verbatim>\<open>ensure_unique_ids\<close>: the loop over the items with the set \<^verbatim>\<open>seen\<close>.\<close>

fun ensure_unique_ids_from :: "string set \<Rightarrow> string list \<Rightarrow> error + unit" where
  "ensure_unique_ids_from seen [] = Inr ()"
| "ensure_unique_ids_from seen (item # items) =
     (if item \<in> seen then Inl (Invalid (''Duplicate identifier: '' @ item))
      else ensure_unique_ids_from (insert item seen) items)"

definition ensure_unique_ids :: "string list \<Rightarrow> error + unit" where
  "ensure_unique_ids items = ensure_unique_ids_from {} items"

text \<open>\<^verbatim>\<open>sorted_unique\<close>: the first occurrence of every item, in order of appearance.\<close>

fun sorted_unique_from :: "string set \<Rightarrow> string list \<Rightarrow> string list \<Rightarrow> string list" where
  "sorted_unique_from seen result [] = result"
| "sorted_unique_from seen result (item # items) =
     (if item \<notin> seen then sorted_unique_from (insert item seen) (result @ [item]) items
      else sorted_unique_from seen result items)"

definition sorted_unique :: "string list \<Rightarrow> string list" where
  "sorted_unique items = sorted_unique_from {} [] items"

subsection \<open>graph_engine.py: the data\<close>

record GraphEvent =
  entity_id :: string
  new_state :: pyval
  old_state :: "pyval option"
  timestamp :: real
  duration :: "real option"

record GraphUpdate =
  upd_state :: presence_state
  changed :: "string list"
  reason :: string
  source_entity_id :: "string option"
  upd_space :: "string option"
  upd_link :: "string option"

record engine =
  decay_threshold :: real
  spaces :: "(string \<times> space) list"
  links :: "(string \<times> link) list"
  entity_index :: "(string \<times> (string \<times> string)) list"
  adjacency :: "(string \<times> string list) list"
  locked_links :: "string set"
  last_link_event :: "(string \<times> real) list"
  last_reason :: string
  state :: presence_state

text \<open>\<^verbatim>\<open>key in d\<close> for a dict.\<close>

definition has_key :: "'k \<Rightarrow> ('k \<times> 'v) list \<Rightarrow> bool" where
  "has_key k d = (k \<in> set (map fst d))"

text \<open>\<^verbatim>\<open>{x.id: x for x in xs}\<close>: a repeated id keeps its first position and its last value.\<close>

definition index_by :: "('a \<Rightarrow> string) \<Rightarrow> 'a list \<Rightarrow> (string \<times> 'a) list" where
  "index_by key xs = fold (\<lambda>x d. AList.update (key x) x d) xs []"

text \<open>\<^verbatim>\<open>s.add(x)\<close> on a set kept as a duplicate-free list.\<close>

definition set_add :: "string \<Rightarrow> string list \<Rightarrow> string list" where
  "set_add x xs = (if x \<in> set xs then xs else xs @ [x])"

subsection \<open>set_model and reset_state\<close>

definition reset_state :: "engine \<Rightarrow> engine" where
  "reset_state g =
     g\<lparr>state :=
         \<lparr>occupied = map (\<lambda>(sid, _). (sid, False)) (spaces g),
          scores = map (\<lambda>(sid, _). (sid, 0)) (spaces g),
          total_estimated = 0,
          last_event_ts = map (\<lambda>(sid, _). (sid, NegInf)) (spaces g),
          space_counts = map (\<lambda>(sid, _). (sid, 0)) (spaces g)\<rparr>,
       locked_links := {},
       last_link_event := [],
       last_reason := ATTR_REASON_DECAY\<rparr>"

definition index_entities ::
  "string \<Rightarrow> string \<Rightarrow> string list \<Rightarrow> (string \<times> (string \<times> string)) list
   \<Rightarrow> (string \<times> (string \<times> string)) list" where
  "index_entities kind target entities idx =
     fold (\<lambda>entity. AList.update entity (kind, target)) (sorted_unique entities) idx"

definition register_space ::
  "space \<Rightarrow> (string \<times> (string \<times> string)) list \<Rightarrow> (string \<times> (string \<times> string)) list" where
  "register_space sp idx =
     index_entities ''space'' (space_id sp) (space_motion_entities sp @ presence_entities sp) idx"

definition register_link ::
  "link \<Rightarrow> (string \<times> string list) list \<times> (string \<times> (string \<times> string)) list
   \<Rightarrow> (string \<times> string list) list \<times> (string \<times> (string \<times> string)) list" where
  "register_link lk = (\<lambda>(adj, idx).
     if \<not> has_key (from_space lk) adj \<or> \<not> has_key (to_space lk) adj then (adj, idx)
     else
       let adj1 = AList.map_entry (from_space lk) (set_add (to_space lk)) adj;
           adj2 = AList.map_entry (to_space lk) (set_add (from_space lk)) adj1;
           idx1 = index_entities ''link_motion'' (link_id lk) (link_motion_entities lk) idx;
           idx2 = index_entities ''link_contact'' (link_id lk) (contact_entities lk) idx1;
           idx3 = index_entities ''link_lock'' (link_id lk) (lock_entities lk) idx2
       in (adj2, idx3))"

definition set_model :: "engine \<Rightarrow> space list \<Rightarrow> link list \<Rightarrow> error + engine" where
  "set_model g sps lks =
     (let space_map = index_by space_id sps in
      case ensure_unique_ids (map fst space_map) of
        Inl e \<Rightarrow> Inl e
      | Inr _ \<Rightarrow>
          let link_map = index_by link_id lks in
          case ensure_unique_ids (map fst link_map) of
            Inl e \<Rightarrow> Inl e
          | Inr _ \<Rightarrow>
              let adj0 = map (\<lambda>(sid, _). (sid, [])) space_map;
                  idx0 = fold register_space (map snd space_map) [];
                  (adj, idx) = fold register_link (map snd link_map) (adj0, idx0)
              in Inr (reset_state
                   (g\<lparr>spaces := space_map, links := link_map,
                      adjacency := adj, entity_index := idx\<rparr>)))"

text \<open>The fields \<^verbatim>\<open>__init__\<close> sets before it calls \<^verbatim>\<open>set_model\<close>.\<close>

definition empty_engine :: "real \<Rightarrow> engine" where
  "empty_engine threshold =
     \<lparr>decay_threshold = threshold, spaces = [], links = [], entity_index = [],
      adjacency = [], locked_links = {}, last_link_event = [],
      last_reason = ATTR_REASON_DECAY,
      state = \<lparr>occupied = [], scores = [], total_estimated = 0, last_event_ts = [],
               space_counts = []\<rparr>\<rparr>"

definition init_engine :: "space list \<Rightarrow> link list \<Rightarrow> real \<Rightarrow> error + engine" where
  "init_engine sps lks threshold = set_model (empty_engine threshold) sps lks"

subsection \<open>Decay\<close>

text \<open>
  One iteration of the loop of \<^verbatim>\<open>_apply_decay\<close>. With \<^verbatim>\<open>last_ts = -inf\<close> the elapsed time
  \<^verbatim>\<open>max(0.0, now - last_ts)\<close> is \<^verbatim>\<open>+inf\<close>, which is at least every timeout: the target is 0.
\<close>

definition decay_target :: "real \<Rightarrow> stamp \<Rightarrow> space \<Rightarrow> real" where
  "decay_target now last_ts sp =
     (let timeout = (if timeout_s sp \<noteq> 0 then timeout_s sp else DEFAULT_TIMEOUT)
      in case last_ts of
           NegInf \<Rightarrow> 0
         | At t \<Rightarrow>
             let elapsed = max 0 (now - t)
             in if elapsed \<ge> real_of_int timeout then 0
                else max 0 (1 - elapsed / real_of_int timeout))"

definition score_of :: "presence_state \<Rightarrow> string \<Rightarrow> real" where
  "score_of st sid = (case map_of (scores st) sid of Some s \<Rightarrow> s | None \<Rightarrow> 0)"

definition decay_space :: "real \<Rightarrow> real \<Rightarrow> string \<times> space \<Rightarrow> presence_state \<Rightarrow> presence_state" where
  "decay_space threshold now = (\<lambda>(sid, sp) st.
     let last_ts = (case map_of (last_event_ts st) sid of Some t \<Rightarrow> t | None \<Rightarrow> NegInf);
         new_score = decay_target now last_ts sp
     in if new_score < score_of st sid then
          let st1 = st\<lparr>scores := AList.update sid new_score (scores st),
                       occupied := AList.update sid (new_score > threshold) (occupied st)\<rparr>
          in if \<not> (new_score > threshold)
             then st1\<lparr>space_counts := AList.update sid 0 (space_counts st1)\<rparr>
             else st1
        else st)"

definition apply_decay :: "real \<Rightarrow> engine \<Rightarrow> engine" where
  "apply_decay now g =
     g\<lparr>state := fold (decay_space (decay_threshold g) now) (spaces g) (state g)\<rparr>"

definition current_state :: "engine \<Rightarrow> real \<Rightarrow> presence_state \<times> engine" where
  "current_state g now = (let g1 = apply_decay now g in (state g1, g1))"

subsection \<open>Cluster counting\<close>

definition neighbours :: "(string \<times> string list) list \<Rightarrow> string \<Rightarrow> string list" where
  "neighbours adj node = (case map_of adj node of Some ns \<Rightarrow> ns | None \<Rightarrow> [])"

text \<open>The body of the \<^verbatim>\<open>for neighbour in ...\<close> loop of \<^verbatim>\<open>_count_clusters\<close>.\<close>

fun visit ::
  "string \<Rightarrow> string set \<times> string list \<times> string list \<Rightarrow> string set \<times> string list \<times> string list" where
  "visit neighbour (visited, remaining, queue) =
     (if neighbour \<in> visited \<or> neighbour \<notin> set remaining then (visited, remaining, queue)
      else (insert neighbour visited, removeAll neighbour remaining, queue @ [neighbour]))"

lemma fold_visit_measure:
  "fold visit ns (v, r, q) = (v', r', q') \<Longrightarrow>
     2 * length r' + length q' \<le> 2 * length r + length q"
proof (induction ns arbitrary: v r q)
  case Nil
  then show ?case by simp
next
  case (Cons n ns)
  show ?case
  proof (cases "n \<in> v \<or> n \<notin> set r")
    case True
    with Cons show ?thesis by simp
  next
    case False
    then have "length (removeAll n r) < length r"
      by (simp add: length_removeAll_less)
    moreover from False Cons.prems
    have "fold visit ns (insert n v, removeAll n r, q @ [n]) = (v', r', q')"
      by simp
    then have "2 * length r' + length q' \<le> 2 * length (removeAll n r) + length (q @ [n])"
      by (rule Cons.IH)
    ultimately show ?thesis by simp
  qed
qed

text \<open>The inner \<^verbatim>\<open>while queue\<close> loop: the queue is served from the left.\<close>

function bfs ::
  "(string \<times> string list) list \<Rightarrow> string set \<Rightarrow> string list \<Rightarrow> string list
   \<Rightarrow> string set \<times> string list" where
  "bfs adj visited remaining [] = (visited, remaining)"
| "bfs adj visited remaining (node # queue) =
     (case fold visit (neighbours adj node) (visited, remaining, queue) of
        (v, r, q) \<Rightarrow> bfs adj v r q)"
  by pat_completeness auto
termination
  apply (relation "measure (\<lambda>(adj, v, r, q). 2 * length r + length q)")
  apply simp
  apply clarsimp
  apply (drule sym)
  apply (frule fold_visit_measure)
  apply simp
  done

declare bfs.simps [simp del]

lemma fold_visit_remaining:
  "fold visit ns (v, r, q) = (v', r', q') \<Longrightarrow> length r' \<le> length r"
proof (induction ns arbitrary: v r q)
  case Nil
  then show ?case by simp
next
  case (Cons n ns)
  show ?case
  proof (cases "n \<in> v \<or> n \<notin> set r")
    case True
    with Cons show ?thesis by simp
  next
    case False
    with Cons.prems
    have "fold visit ns (insert n v, removeAll n r, q @ [n]) = (v', r', q')"
      by simp
    then have "length r' \<le> length (removeAll n r)"
      by (rule Cons.IH)
    also have "\<dots> \<le> length r" by simp
    finally show ?thesis .
  qed
qed

lemma bfs_remaining_length: "length (snd (bfs adj v r q)) \<le> length r"
proof (induction adj v r q rule: bfs.induct)
  case (1 adj visited remaining)
  then show ?case by (simp add: bfs.simps)
next
  case (2 adj visited remaining node queue)
  obtain v r q where f: "fold visit (neighbours adj node) (visited, remaining, queue) = (v, r, q)"
    by (cases "fold visit (neighbours adj node) (visited, remaining, queue)") auto
  from 2 [OF f [symmetric]]
  have "length (snd (bfs adj v r q)) \<le> length r" by simp
  with fold_visit_remaining [OF f] f show ?case by (simp add: bfs.simps)
qed

lemma bfs_remaining_le: "bfs adj v r q = (v', r') \<Longrightarrow> length r' \<le> length r"
  using bfs_remaining_length [of adj v r q] by simp

text \<open>The outer \<^verbatim>\<open>while remaining\<close> loop; \<^verbatim>\<open>remaining.pop()\<close> takes the head of the list.\<close>

function count_from ::
  "(string \<times> string list) list \<Rightarrow> string set \<Rightarrow> string list \<Rightarrow> int \<Rightarrow> int" where
  "count_from adj visited [] clusters = clusters"
| "count_from adj visited (current # remaining) clusters =
     (case bfs adj (insert current visited) remaining [current] of
        (v, r) \<Rightarrow> count_from adj v r (clusters + 1))"
  by pat_completeness auto
termination
  apply (relation "measure (\<lambda>(adj, v, r, c). length r)")
  apply simp
  apply (drule sym)
  apply (drule bfs_remaining_le)
  apply simp
  done

definition count_clusters :: "(string \<times> string list) list \<Rightarrow> string list \<Rightarrow> int" where
  "count_clusters adj sids =
     (if sids = [] then 0 else count_from adj {} (remdups sids) 0)"

declare count_from.simps [simp del]

subsection \<open>Totals\<close>

text \<open>
  \<^verbatim>\<open>[sid for sid in occupied_spaces if self._spaces[sid].include_in_total]\<close>: the subscript
  raises \<^verbatim>\<open>KeyError\<close> at the first id that is not a space.
\<close>

fun included_spaces :: "(string \<times> space) list \<Rightarrow> string list \<Rightarrow> error + string list" where
  "included_spaces sps [] = Inr []"
| "included_spaces sps (sid # sids) =
     (case map_of sps sid of
        None \<Rightarrow> Inl (KeyError sid)
      | Some sp \<Rightarrow>
          (case included_spaces sps sids of
             Inl e \<Rightarrow> Inl e
           | Inr rest \<Rightarrow> Inr (if include_in_total sp then sid # rest else rest)))"

definition occupied_spaces :: "presence_state \<Rightarrow> string list" where
  "occupied_spaces st = map fst (filter snd (occupied st))"

definition clamp_total :: "int \<Rightarrow> int \<Rightarrow> int" where
  "clamp_total previous estimated =
     (if estimated > previous + 1 then previous + 1 else estimated)"

definition recalculate_totals :: "engine \<Rightarrow> error + engine" where
  "recalculate_totals g =
     (let st = state g; occ = occupied_spaces st in
      case included_spaces (spaces g) occ of
        Inl e \<Rightarrow> Inl e
      | Inr included \<Rightarrow>
          let st1 = st\<lparr>space_counts :=
                        map (\<lambda>(sid, _). (sid, if sid \<in> set occ then 1 else 0)) (spaces g)\<rparr>
          in if occ = [] then Inr (g\<lparr>state := st1\<lparr>total_estimated := 0\<rparr>\<rparr>)
             else if included = [] then Inr (g\<lparr>state := st1\<lparr>total_estimated := 0\<rparr>\<rparr>)
             else
               let clusters = count_clusters (adjacency g) included;
                   estimated = max clusters 1;
                   previous = total_estimated st1
               in Inr (g\<lparr>state := st1\<lparr>total_estimated := clamp_total previous estimated\<rparr>\<rparr>))"

subsection \<open>Binary64 arithmetic\<close>

text \<open>
  A Python \<^verbatim>\<open>float\<close> is an IEEE 754 binary64 number. The scores are kept here as the reals
  they denote. Where the source compares a score with a sum of floats, the sum is
  rounded as the machine rounds it: to the nearest number with a 53-bit significand, a
  tie going to the even significand, with the exponent not below -1022. A sum beyond
  the largest float would be \<^verbatim>\<open>inf\<close> in the source; here it is a real above every float,
  which compares in the same way with a float. \<open>FLOAT_0_6\<close> and \<open>FLOAT_1E_6\<close> are the
  floats that the literals \<^verbatim>\<open>0.6\<close> and \<^verbatim>\<open>1e-6\<close> denote.
\<close>

definition round_half_even :: "real \<Rightarrow> int" where
  "round_half_even x =
     (let f = \<lfloor>x\<rfloor>; r = x - of_int f
      in if r < 1 / 2 then f else if 1 / 2 < r then f + 1 else if even f then f else f + 1)"

definition float_exponent :: "real \<Rightarrow> int" where
  "float_exponent x = max \<lfloor>log 2 \<bar>x\<bar>\<rfloor> (- 1022)"

definition round64 :: "real \<Rightarrow> real" where
  "round64 x =
     (if x = 0 then 0
      else let ulp = 2 powr real_of_int (float_exponent x - 52)
           in real_of_int (round_half_even (x / ulp)) * ulp)"

definition float_add :: "real \<Rightarrow> real \<Rightarrow> real" where
  "float_add x y = round64 (x + y)"

definition FLOAT_0_6 :: real where
  "FLOAT_0_6 = 5404319552844595 / 9007199254740992"

definition FLOAT_1E_6 :: real where
  "FLOAT_1E_6 = 4722366482869645 / 4722366482869645213696"

subsection \<open>Activation, locks and link traversal\<close>

definition activate_space :: "engine \<Rightarrow> string \<Rightarrow> real \<Rightarrow> string \<Rightarrow> string list \<times> engine" where
  "activate_space g sid ts entity =
     (if \<not> has_key sid (spaces g) then ([], g)
      else
        let st = state g
        in ([sid],
            g\<lparr>state := st\<lparr>scores := AList.update sid 1 (scores st),
                            occupied := AList.update sid True (occupied st),
                            last_event_ts := AList.update sid (At ts) (last_event_ts st),
                            space_counts := AList.update sid 1 (space_counts st)\<rparr>\<rparr>))"

definition handle_link_lock :: "engine \<Rightarrow> string \<Rightarrow> GraphEvent \<Rightarrow> string \<times> engine" where
  "handle_link_lock g lid ev =
     (let locked = state_is_locked (new_state ev)
      in (ATTR_REASON_LINK,
          if locked then g\<lparr>locked_links := insert lid (locked_links g)\<rparr>
          else g\<lparr>locked_links := locked_links g - {lid}\<rparr>))"

definition compute_boost :: "engine \<Rightarrow> string \<Rightarrow> real \<Rightarrow> bool \<times> engine" where
  "compute_boost g sid ts =
     (if \<not> has_key sid (spaces g) then (False, g)
      else
        let st = state g;
            prev_score = score_of st sid;
            new_score = max prev_score FLOAT_0_6
        in if new_score \<le> float_add prev_score FLOAT_1E_6 then (False, g)
           else
             let applied = min 1 new_score;
                 occ = (applied > decay_threshold g);
                 st1 = st\<lparr>scores := AList.update sid applied (scores st),
                          last_event_ts := AList.update sid (At ts) (last_event_ts st),
                          occupied := AList.update sid occ (occupied st)\<rparr>;
                 st2 = (if occ then st1\<lparr>space_counts := AList.update sid 1 (space_counts st1)\<rparr>
                        else st1)
             in (True, g\<lparr>state := st2\<rparr>))"

text \<open>
  One iteration of the loop over the two candidates of \<^verbatim>\<open>_handle_link_activity\<close>. A source
  without an entry in \<^verbatim>\<open>last_event_ts\<close> reads as time 0.
\<close>

fun try_candidate ::
  "real \<Rightarrow> real \<Rightarrow> string \<times> string \<Rightarrow> string list \<times> engine \<Rightarrow> string list \<times> engine" where
  "try_candidate ts latency (source, target) (chg, g) =
     (let last_activation =
            (case map_of (last_event_ts (state g)) source of Some t \<Rightarrow> t | None \<Rightarrow> At 0)
      in case last_activation of
           NegInf \<Rightarrow> (chg, g)
         | At t \<Rightarrow>
             if ts - t \<le> latency then
               (case compute_boost g target ts of
                  (boost, g') \<Rightarrow> (if boost then chg @ [target] else chg, g'))
             else (chg, g))"

text \<open>
  The debounce test of \<^verbatim>\<open>_handle_link_activity\<close>:
  \<^verbatim>\<open>last_event_ts is not None and ts - last_event_ts < LINK_EVENT_DEBOUNCE\<close>.
\<close>

definition link_debounced :: "engine \<Rightarrow> string \<Rightarrow> real \<Rightarrow> bool" where
  "link_debounced g lid ts =
     (case map_of (last_link_event g) lid of
        None \<Rightarrow> False
      | Some prev \<Rightarrow> ts - prev < LINK_EVENT_DEBOUNCE)"

definition handle_link_activity :: "engine \<Rightarrow> string \<Rightarrow> real \<Rightarrow> string \<Rightarrow> string list \<times> engine" where
  "handle_link_activity g lid ts entity =
     (case map_of (links g) lid of
        None \<Rightarrow> ([], g)
      | Some lk \<Rightarrow>
          if lid \<in> locked_links g then ([], g)
          else if link_debounced g lid ts then ([], g)
          else
            let g1 = g\<lparr>last_link_event := AList.update lid ts (last_link_event g)\<rparr>;
                latency = (if traversal_latency_s lk \<noteq> 0 then traversal_latency_s lk
                           else DEFAULT_TRAVERSAL_LATENCY);
                candidates = [(from_space lk, to_space lk), (to_space lk, from_space lk)]
            in case fold (try_candidate ts (real_of_int latency)) candidates ([], g1) of
                 (chg, g2) \<Rightarrow> (sorted_unique chg, g2))"

subsection \<open>The public methods\<close>

definition make_update ::
  "engine \<Rightarrow> string list \<Rightarrow> string \<Rightarrow> string option \<Rightarrow> string option \<Rightarrow> string option
   \<Rightarrow> GraphUpdate" where
  "make_update g chg rsn src sp lk =
     \<lparr>upd_state = state g, changed = chg, reason = rsn, source_entity_id = src,
      upd_space = sp, upd_link = lk\<rparr>"

text \<open>The dispatch on the kind of the entity: the changed spaces, the reason, the engine.\<close>

definition dispatch ::
  "engine \<Rightarrow> string \<Rightarrow> string \<Rightarrow> GraphEvent \<Rightarrow> string list \<times> string \<times> engine" where
  "dispatch g event_type target_id ev =
     (if event_type = ''space'' then
        (if is_on_state (new_state ev) then
           (case activate_space g target_id (timestamp ev) (entity_id ev) of
              (chg, g') \<Rightarrow> (chg, ATTR_REASON_SENSOR, g'))
         else ([], ATTR_REASON_DECAY, g))
      else if event_type = ''link_lock'' then
        (case handle_link_lock g target_id ev of (rsn, g') \<Rightarrow> ([], rsn, g'))
      else
        (case handle_link_activity g target_id (timestamp ev) (entity_id ev) of
           (chg, g') \<Rightarrow> (chg, ATTR_REASON_LINK, g')))"

text \<open>
  The pulse test of \<^verbatim>\<open>process_event\<close>:
  \<^verbatim>\<open>event.duration is not None and event.duration < MIN_EVENT_DURATION\<close>.
\<close>

definition short_pulse :: "GraphEvent \<Rightarrow> bool" where
  "short_pulse ev = (case duration ev of None \<Rightarrow> False | Some d \<Rightarrow> d < MIN_EVENT_DURATION)"

definition process_event :: "engine \<Rightarrow> GraphEvent \<Rightarrow> error + GraphUpdate \<times> engine" where
  "process_event g ev =
     (case map_of (entity_index g) (entity_id ev) of
        None \<Rightarrow>
          let g1 = apply_decay (timestamp ev) g
          in Inr (make_update g1 [] ATTR_REASON_DECAY None None None, g1)
      | Some (event_type, target_id) \<Rightarrow>
          let g1 = apply_decay (timestamp ev) g
          in if short_pulse ev
             then Inr (make_update g1 [] ATTR_REASON_DECAY None None None, g1)
             else
               (case dispatch g1 event_type target_id ev of
                  (chg, rsn, g2) \<Rightarrow>
                    (case recalculate_totals
                            (if chg \<noteq> [] then g2\<lparr>last_reason := rsn\<rparr> else g2) of
                       Inl e \<Rightarrow> Inl e
                     | Inr g3 \<Rightarrow>
                         Inr (make_update g3 chg
                                (if chg \<noteq> [] then rsn else last_reason g3)
                                (Some (entity_id ev))
                                (if event_type = ''space'' then Some target_id else None)
                                (if event_type \<noteq> ''space'' then Some target_id else None),
                              g3))))"

text \<open>
  \<^verbatim>\<open>force_space_state(space_id, occupied, score=None, *, reason=ATTR_REASON_FORCED)\<close>, with the
  clock's reading \<open>now\<close>.
\<close>

definition force_space_state ::
  "engine \<Rightarrow> real \<Rightarrow> string \<Rightarrow> bool \<Rightarrow> real option \<Rightarrow> string \<Rightarrow> error + GraphUpdate \<times> engine" where
  "force_space_state g now sid occ score rsn =
     (if \<not> has_key sid (spaces g) then Inr (make_update g [] rsn None None None, g)
      else
        let st = state g;
            score_to_apply =
              max 0 (min 1 (case score of Some s \<Rightarrow> s | None \<Rightarrow> if occ then 1 else 0));
            st1 = st\<lparr>scores := AList.update sid score_to_apply (scores st),
                     occupied :=
                       AList.update sid
                         (if occ then occ else score_to_apply > decay_threshold g)
                         (occupied st)\<rparr>;
            st2 = (if occ then st1\<lparr>last_event_ts := AList.update sid (At now) (last_event_ts st1)\<rparr>
                   else st1)
        in case recalculate_totals (g\<lparr>state := st2\<rparr>) of
             Inl e \<Rightarrow> Inl e
           | Inr g' \<Rightarrow> Inr (make_update g' [sid] rsn None (Some sid) None, g'))"

definition set_space_inclusion :: "engine \<Rightarrow> string \<Rightarrow> bool \<Rightarrow> error + engine" where
  "set_space_inclusion g sid include =
     (case map_of (spaces g) sid of
        None \<Rightarrow> Inr g
      | Some sp \<Rightarrow>
          recalculate_totals
            (g\<lparr>spaces := AList.update sid (sp\<lparr>include_in_total := include\<rparr>) (spaces g)\<rparr>))"

section \<open>An example model\<close>

text \<open>
  Two rooms joined by a door, as in the fixtures of the test suite. \<open>demo_engine\<close> is the
  engine that \<^verbatim>\<open>GraphEngine([living, kitchen], [living_kitchen], clock)\<close> builds.
\<close>

definition living :: space where
  "living = \<lparr>space_id = ''living'', space_name = ''Living'', include_in_total = True,
     space_motion_entities = [''living_motion''], presence_entities = [], timeout_s = 60\<rparr>"

definition kitchen :: space where
  "kitchen = \<lparr>space_id = ''kitchen'', space_name = ''Kitchen'', include_in_total = True,
     space_motion_entities = [''kitchen_motion''], presence_entities = [], timeout_s = 90\<rparr>"

definition living_kitchen :: link where
  "living_kitchen = \<lparr>link_id = ''door'', link_name = ''Door'', from_space = ''living'',
     to_space = ''kitchen'', link_motion_entities = [''door_motion''], contact_entities = [],
     lock_entities = [''door_lock''], traversal_latency_s = 8\<rparr>"

definition demo_state :: presence_state where
  "demo_state =
     \<lparr>occupied = [(''living'', False), (''kitchen'', False)],
      scores = [(''living'', 0), (''kitchen'', 0)],
      total_estimated = 0,
      last_event_ts = [(''living'', NegInf), (''kitchen'', NegInf)],
      space_counts = [(''living'', 0), (''kitchen'', 0)]\<rparr>"

definition demo_engine :: engine where
  "demo_engine =
     \<lparr>decay_threshold = DEFAULT_DECAY_THRESHOLD,
      spaces = [(''living'', living), (''kitchen'', kitchen)],
      links = [(''door'', living_kitchen)],
      entity_index = [(''living_motion'', (''space'', ''living'')),
                      (''kitchen_motion'', (''space'', ''kitchen'')),
                      (''door_motion'', (''link_motion'', ''door'')),
                      (''door_lock'', (''link_lock'', ''door''))],
      adjacency = [(''living'', [''kitchen'']), (''kitchen'', [''living''])],
      locked_links = {},
      last_link_event = [],
      last_reason = ATTR_REASON_DECAY,
      state = demo_state\<rparr>"

lemmas demo_defs = living_def kitchen_def living_kitchen_def demo_state_def demo_engine_def

lemma demo_engine_init:
  "init_engine [living, kitchen] [living_kitchen] DEFAULT_DECAY_THRESHOLD = Inr demo_engine"
  by (simp add: init_engine_def set_model_def index_by_def ensure_unique_ids_def
      empty_engine_def reset_state_def register_space_def register_link_def
      index_entities_def sorted_unique_def has_key_def set_add_def demo_defs)


section \<open>Facts about dicts\<close>

lemma lower_locked: "lower ''locked'' = ''locked''" by code_simp
lemma lower_unlocked: "lower ''unlocked'' = ''unlocked''" by code_simp
lemma lower_on: "lower ''on'' = ''on''" by code_simp
lemma lower_off: "lower ''off'' = ''off''" by code_simp

lemmas lower_literals = lower_locked lower_unlocked lower_on lower_off

lemma map_of_update_same: "map_of (AList.update k v al) k = Some v"
  by (simp add: update_conv')

lemma map_of_update_other: "k' \<noteq> k \<Longrightarrow> map_of (AList.update k v al) k' = map_of al k'"
  by (simp add: update_conv')


section \<open>Link traversal: the confidence boost\<close>

text \<open>
  Rounding to the nearest integer with ties to even is monotone and fixes the integers;
  rounding to binary64 scales by the unit in the last place of the binade.
\<close>

lemma rhe_cases:
  "round_half_even x = \<lfloor>x\<rfloor> \<or> round_half_even x = \<lfloor>x\<rfloor> + 1"
  by (simp add: round_half_even_def Let_def)

lemma rhe_of_int: "round_half_even (of_int k) = k"
  by (simp add: round_half_even_def)

lemma rhe_mono:
  assumes "x \<le> y"
  shows "round_half_even x \<le> round_half_even y"
proof (cases "\<lfloor>x\<rfloor> = \<lfloor>y\<rfloor>")
  case True
  with assms show ?thesis
    by (auto simp: round_half_even_def Let_def)
next
  case False
  with assms have "\<lfloor>x\<rfloor> < \<lfloor>y\<rfloor>" using floor_mono [OF assms] by simp
  moreover have "round_half_even x \<le> \<lfloor>x\<rfloor> + 1" using rhe_cases [of x] by auto
  moreover have "\<lfloor>y\<rfloor> \<le> round_half_even y" using rhe_cases [of y] by auto
  ultimately show ?thesis by simp
qed

lemma rhe_le: "x \<le> of_int k \<Longrightarrow> round_half_even x \<le> k"
  using rhe_mono [of x "of_int k"] by (simp add: rhe_of_int)

lemma rhe_ge: "of_int k \<le> x \<Longrightarrow> k \<le> round_half_even x"
  using rhe_mono [of "of_int k" x] by (simp add: rhe_of_int)

lemma rhe_above_half:
  assumes "of_int k - 1 / 2 < x"
  shows "k \<le> round_half_even x"
proof (cases "of_int k \<le> x")
  case True
  then show ?thesis by (rule rhe_ge)
next
  case False
  then have "x < of_int k" by simp
  moreover from assms have "of_int (k - 1) \<le> x" by simp
  ultimately have f: "\<lfloor>x\<rfloor> = k - 1" by linarith
  with assms show ?thesis
    by (simp add: round_half_even_def Let_def)
qed

lemma rhe_below_half:
  assumes "x \<le> of_int k + 1 / 2" "even k"
  shows "round_half_even x \<le> k"
proof (cases "x \<le> of_int k")
  case True
  then show ?thesis by (rule rhe_le)
next
  case False
  then have "of_int k < x" by simp
  moreover from assms have "x < of_int (k + 1)" by simp
  ultimately have f: "\<lfloor>x\<rfloor> = k" by linarith
  with assms show ?thesis
    by (simp add: round_half_even_def Let_def)
qed

lemma rhe_nearest:
  assumes "of_int k - 1 / 2 < x" "x < of_int k + 1 / 2"
  shows "round_half_even x = k"
proof -
  have "round_half_even x \<le> k"
  proof (cases "x \<le> of_int k")
    case True
    then show ?thesis by (rule rhe_le)
  next
    case False
    then have "of_int k < x" by simp
    moreover from assms have "x < of_int (k + 1)" by simp
    ultimately have f: "\<lfloor>x\<rfloor> = k" by linarith
    with assms show ?thesis
      by (simp add: round_half_even_def Let_def)
  qed
  with rhe_above_half [OF assms(1)] show ?thesis by simp
qed

lemma log2_bounds:
  assumes "0 < x"
  shows "2 powr real_of_int \<lfloor>log 2 x\<rfloor> \<le> x" "x < 2 powr real_of_int (\<lfloor>log 2 x\<rfloor> + 1)"
  using floor_log_eq_powr_iff [of x 2 "\<lfloor>log 2 x\<rfloor>"] assms by simp_all

lemma float_exponent_eq:
  assumes "2 powr real_of_int e \<le> x" "x < 2 powr real_of_int (e + 1)" "- 1022 \<le> e"
  shows "float_exponent x = e"
proof -
  from assms(1) have x: "0 < x" by (rule less_le_trans [rotated]) simp
  from floor_log_eq_powr_iff [of x 2 e] x assms(1,2) have "\<lfloor>log 2 x\<rfloor> = e" by simp
  with x assms(3) show ?thesis by (simp add: float_exponent_def)
qed

lemma round64_normal:
  assumes "2 powr real_of_int e \<le> x" "x < 2 powr real_of_int (e + 1)" "- 1022 \<le> e"
  shows "round64 x
     = real_of_int (round_half_even (x / 2 powr real_of_int (e - 52))) * 2 powr real_of_int (e - 52)"
proof -
  from assms(1) have x: "0 < x" by (rule less_le_trans [rotated]) simp
  with float_exponent_eq [OF assms] show ?thesis
    by (simp add: round64_def Let_def)
qed

lemma ulp_53: "2 powr real_of_int (e + 1) = 9007199254740992 * 2 powr real_of_int (e - 52)"
proof -
  have "real_of_int (e + 1) = 53 + real_of_int (e - 52)" by simp
  then have "2 powr real_of_int (e + 1) = 2 powr 53 * 2 powr real_of_int (e - 52)"
    by (simp only: powr_add)
  then show ?thesis by simp
qed

lemma ulp_52: "2 powr real_of_int e = 4503599627370496 * 2 powr real_of_int (e - 52)"
proof -
  have "real_of_int e = 52 + real_of_int (e - 52)" by simp
  then have "2 powr real_of_int e = 2 powr 52 * 2 powr real_of_int (e - 52)"
    by (simp only: powr_add)
  then show ?thesis by simp
qed

lemma round64_upper:
  assumes "0 < x"
  shows "round64 x \<le> 2 powr real_of_int (float_exponent x + 1)"
proof -
  let ?E = "float_exponent x"
  let ?u = "2 powr real_of_int (?E - 52)"
  have u: "0 < ?u" by simp
  have "\<lfloor>log 2 x\<rfloor> \<le> ?E" using assms by (simp add: float_exponent_def)
  then have "real_of_int (\<lfloor>log 2 x\<rfloor> + 1) \<le> real_of_int (?E + 1)" by simp
  then have "2 powr real_of_int (\<lfloor>log 2 x\<rfloor> + 1) \<le> 2 powr real_of_int (?E + 1)"
    by (simp only: powr_le_cancel_iff) 
  with log2_bounds(2) [OF assms] have "x \<le> 2 powr real_of_int (?E + 1)" by linarith
  then have "x \<le> 9007199254740992 * ?u" by (simp only: ulp_53)
  then have "x / ?u \<le> 9007199254740992"
    using u by (simp only: pos_divide_le_eq)
  then have "x / ?u \<le> real_of_int 9007199254740992" by simp
  then have "round_half_even (x / ?u) \<le> 9007199254740992" by (rule rhe_le)
  then have "real_of_int (round_half_even (x / ?u)) \<le> 9007199254740992" by linarith
  then have "real_of_int (round_half_even (x / ?u)) * ?u \<le> 9007199254740992 * ?u"
    using u by (simp only: mult_le_cancel_right_pos)
  then have "real_of_int (round_half_even (x / ?u)) * ?u \<le> 2 powr real_of_int (?E + 1)"
    by (simp only: ulp_53 [symmetric])
  then show ?thesis using assms by (simp add: round64_def Let_def)
qed

lemma round64_lower:
  assumes "0 < x" "2 powr real_of_int (float_exponent x) \<le> x"
  shows "2 powr real_of_int (float_exponent x) \<le> round64 x"
proof -
  let ?E = "float_exponent x"
  let ?u = "2 powr real_of_int (?E - 52)"
  have u: "0 < ?u" by simp
  from assms(2) have "2 powr real_of_int ?E \<le> x" .
  then have "4503599627370496 * ?u \<le> x" by (simp only: ulp_52 [of ?E, symmetric])
  then have "4503599627370496 \<le> x / ?u"
    using u by (simp only: pos_le_divide_eq)
  then have "real_of_int 4503599627370496 \<le> x / ?u" by simp
  then have "4503599627370496 \<le> round_half_even (x / ?u)" by (rule rhe_ge)
  then have "4503599627370496 \<le> real_of_int (round_half_even (x / ?u))" by linarith
  then have "4503599627370496 * ?u \<le> real_of_int (round_half_even (x / ?u)) * ?u"
    using u by (simp only: mult_le_cancel_right_pos)
  then have "2 powr real_of_int ?E \<le> real_of_int (round_half_even (x / ?u)) * ?u"
    by (simp only: ulp_52 [symmetric])
  then show ?thesis using assms(1) by (simp add: round64_def Let_def)
qed

lemma round64_mono_pos:
  assumes "0 < x" "x \<le> y"
  shows "round64 x \<le> round64 y"
proof -
  from assms have y: "0 < y" by simp
  let ?Ex = "float_exponent x" and ?Ey = "float_exponent y"
  have "log 2 x \<le> log 2 y" using assms by simp
  then have fl: "\<lfloor>log 2 x\<rfloor> \<le> \<lfloor>log 2 y\<rfloor>" by (rule floor_mono)
  then have le: "?Ex \<le> ?Ey" using assms y by (auto simp: float_exponent_def)
  show ?thesis
  proof (cases "?Ex = ?Ey")
    case True
    let ?u = "2 powr real_of_int (?Ex - 52)"
    have "x / ?u \<le> y / ?u" using assms(2) by (simp add: divide_right_mono)
    then have "round_half_even (x / ?u) \<le> round_half_even (y / ?u)" by (rule rhe_mono)
    then have "real_of_int (round_half_even (x / ?u)) * ?u
        \<le> real_of_int (round_half_even (y / ?u)) * ?u"
      by (simp add: mult_right_mono)
    with True assms(1) y show ?thesis by (simp add: round64_def Let_def)
  next
    case False
    with le have lt: "?Ex + 1 \<le> ?Ey" by simp
    then have "- 1022 < ?Ey" by (simp add: float_exponent_def)
    then have ey: "?Ey = \<lfloor>log 2 y\<rfloor>" using y by (auto simp: float_exponent_def max_def split: if_splits)
    from log2_bounds(1) [OF y] ey have "2 powr real_of_int ?Ey \<le> y" by simp
    from round64_lower [OF y this] have "2 powr real_of_int ?Ey \<le> round64 y" .
    moreover from lt have "2 powr real_of_int (?Ex + 1) \<le> 2 powr real_of_int ?Ey" by simp
    moreover note round64_upper [OF assms(1)]
    ultimately show ?thesis by linarith
  qed
qed

lemma round64_nonpos:
  assumes "x \<le> 0"
  shows "round64 x \<le> 0"
proof (cases "x = 0")
  case True
  then show ?thesis by (simp add: round64_def)
next
  case False
  let ?u = "2 powr real_of_int (float_exponent x - 52)"
  from assms have "x / ?u \<le> real_of_int 0" by (simp add: divide_nonpos_pos)
  then have "round_half_even (x / ?u) \<le> 0" by (rule rhe_le)
  then have "real_of_int (round_half_even (x / ?u)) * ?u \<le> 0"
    by (simp add: mult_nonpos_nonneg)
  with False show ?thesis by (simp add: round64_def Let_def)
qed

lemma round64_half_to_one:
  assumes "1 / 2 \<le> x" "x < 1"
  shows "round64 x = real_of_int (round_half_even (x * 9007199254740992)) / 9007199254740992"
proof -
  have u: "(2 :: real) powr - 53 = 1 / 9007199254740992"
    by (simp add: powr_neg_numeral)
  have a: "2 powr real_of_int (- 1) \<le> x" "x < 2 powr real_of_int (- 1 + 1)"
    using assms by (simp_all add: powr_neg_one)
  have "round64 x
      = real_of_int (round_half_even (x / 2 powr real_of_int (- 1 - 52)))
          * 2 powr real_of_int (- 1 - 52)"
    by (rule round64_normal [OF a]) simp
  then show ?thesis by (simp add: u)
qed

lemma round64_one: "round64 1 = 1"
proof -
  have u: "(2 :: real) powr - 52 = 1 / 4503599627370496"
    by (simp add: powr_neg_numeral)
  have "round64 1
     = real_of_int (round_half_even (1 / 2 powr real_of_int (0 - 52))) * 2 powr real_of_int (0 - 52)"
    by (rule round64_normal) simp_all
  moreover have "round_half_even (real_of_int 4503599627370496) = 4503599627370496"
    by (rule rhe_of_int)
  ultimately show ?thesis by (simp add: u)
qed

lemma round64_half: "round64 (1 / 2) = 1 / 2"
proof -
  have "round_half_even (real_of_int 4503599627370496) = 4503599627370496"
    by (rule rhe_of_int)
  then show ?thesis
    using round64_half_to_one [of "1 / 2"] by simp
qed

text \<open>
  Around the float of \<open>0.6\<close>, whose 53-bit significand is odd: a real rounds below it
  exactly when it is at most half a unit in the last place below it.
\<close>

lemma round64_below_0_6:
  assumes "x \<le> FLOAT_0_6 - 1 / 18014398509481984"
  shows "round64 x < FLOAT_0_6"
proof -
  consider "x \<le> 0" | "0 < x" "x < 1 / 2" | "1 / 2 \<le> x" by linarith
  then show ?thesis
  proof cases
    case 1
    from round64_nonpos [OF this] show ?thesis by (simp add: FLOAT_0_6_def)
  next
    case 2
    then have "round64 x \<le> round64 (1 / 2)" by (intro round64_mono_pos) simp_all
    then show ?thesis by (simp add: round64_half FLOAT_0_6_def)
  next
    case 3
    from assms have x1: "x < 1" by (simp add: FLOAT_0_6_def)
    from assms have "x * 9007199254740992 \<le> real_of_int 5404319552844594 + 1 / 2"
      by (simp add: FLOAT_0_6_def)
    then have "round_half_even (x * 9007199254740992) \<le> 5404319552844594"
      by (rule rhe_below_half) simp
    then have "real_of_int (round_half_even (x * 9007199254740992)) \<le> 5404319552844594"
      by linarith
    then show ?thesis
      by (simp add: round64_half_to_one [OF 3 x1] FLOAT_0_6_def)
  qed
qed

lemma round64_above_0_6:
  assumes "FLOAT_0_6 - 1 / 18014398509481984 < x"
  shows "FLOAT_0_6 \<le> round64 x"
proof (cases "x < 1")
  case True
  from assms have h: "1 / 2 \<le> x" by (simp add: FLOAT_0_6_def)
  from assms have "real_of_int 5404319552844595 - 1 / 2 < x * 9007199254740992"
    by (simp add: FLOAT_0_6_def)
  then have "5404319552844595 \<le> round_half_even (x * 9007199254740992)"
    by (rule rhe_above_half)
  then have "5404319552844595 \<le> real_of_int (round_half_even (x * 9007199254740992))"
    by linarith
  then show ?thesis
    by (simp add: round64_half_to_one [OF h True] FLOAT_0_6_def)
next
  case False
  then have "round64 1 \<le> round64 x" by (intro round64_mono_pos) simp_all
  then show ?thesis by (simp add: round64_one FLOAT_0_6_def)
qed

lemma float_add_0_6:
  "float_add prev FLOAT_1E_6 < FLOAT_0_6
     \<longleftrightarrow> prev + FLOAT_1E_6 \<le> FLOAT_0_6 - 1 / 18014398509481984"
proof (cases "prev + FLOAT_1E_6 \<le> FLOAT_0_6 - 1 / 18014398509481984")
  case True
  with round64_below_0_6 [OF True] show ?thesis by (simp add: float_add_def)
next
  case False
  then have "FLOAT_0_6 - 1 / 18014398509481984 < prev + FLOAT_1E_6" by simp
  from round64_above_0_6 [OF this] False show ?thesis by (simp add: float_add_def)
qed

lemma float_add_ge:
  assumes "round64 prev = prev" "0 < prev"
  shows "prev \<le> float_add prev FLOAT_1E_6"
proof -
  have "round64 prev \<le> round64 (prev + FLOAT_1E_6)"
    by (rule round64_mono_pos [OF assms(2)]) (simp add: FLOAT_1E_6_def)
  with assms(1) show ?thesis by (simp add: float_add_def)
qed

lemma round64_float_0_599999:
  "round64 (1351077636411335 / 2251799813685248) = 1351077636411335 / 2251799813685248"
proof -
  have "round_half_even (real_of_int 5404310545645340) = 5404310545645340"
    by (rule rhe_of_int)
  then show ?thesis
    using round64_half_to_one [of "1351077636411335 / 2251799813685248"] by simp
qed

text \<open>
  C7 (amended). A boost attempt on a target computes \<open>max prev 0.6\<close> and applies it exactly
  when the target is a known space and that value is greater than the sum \<open>prev + 1e-6\<close>
  as the source computes it, in binary64. For a score below \<open>0.6\<close>, and for every score
  that is a float, that is the case exactly when \<open>prev + 1e-6\<close> is at most \<open>0.6 - 2^-54\<close>
  in exact arithmetic, \<open>0.6\<close> and \<open>1e-6\<close> standing for the floats of these literals: the
  sum then rounds below \<open>0.6\<close>. When the boost is applied, the score becomes
  \<open>min 1 (max prev 0.6)\<close>, \<open>last_event_ts\<close> is stamped with the event time, \<open>occupied\<close> is
  recomputed from the threshold, the count is set to 1 if the space is occupied, and the
  target is reported as changed; otherwise the engine is left as it was.
\<close>

theorem compute_boost_epsilon:
  assumes "compute_boost g sid ts = (b, g')"
  shows "(b \<longleftrightarrow> has_key sid (spaces g)
            \<and> float_add (score_of (state g) sid) FLOAT_1E_6
                < max (score_of (state g) sid) FLOAT_0_6)
       \<and> (score_of (state g) sid < FLOAT_0_6
            \<or> round64 (score_of (state g) sid) = score_of (state g) sid \<longrightarrow>
            (b \<longleftrightarrow> has_key sid (spaces g)
               \<and> score_of (state g) sid + FLOAT_1E_6 \<le> FLOAT_0_6 - 1 / 18014398509481984))
       \<and> (if b then
            score_of (state g') sid = min 1 (max (score_of (state g) sid) FLOAT_0_6)
            \<and> map_of (last_event_ts (state g')) sid = Some (At ts)
            \<and> map_of (occupied (state g')) sid
                = Some (score_of (state g') sid > decay_threshold g)
            \<and> (score_of (state g') sid > decay_threshold g \<longrightarrow>
                  map_of (space_counts (state g')) sid = Some 1)
          else g' = g)"
proof -
  let ?p = "score_of (state g) sid"
  have a: "b \<longleftrightarrow> has_key sid (spaces g) \<and> float_add ?p FLOAT_1E_6 < max ?p FLOAT_0_6"
    using assms by (auto simp: compute_boost_def Let_def not_le split: if_splits)
  have t: "float_add ?p FLOAT_1E_6 < max ?p FLOAT_0_6
      \<longleftrightarrow> ?p + FLOAT_1E_6 \<le> FLOAT_0_6 - 1 / 18014398509481984"
    if "?p < FLOAT_0_6 \<or> round64 ?p = ?p"
  proof (cases "?p < FLOAT_0_6")
    case True
    then have "max ?p FLOAT_0_6 = FLOAT_0_6" by simp
    then show ?thesis by (simp only: float_add_0_6)
  next
    case False
    with that have d: "round64 ?p = ?p" and ge: "FLOAT_0_6 \<le> ?p" by auto
    from ge have "0 < ?p" by (simp add: FLOAT_0_6_def)
    from float_add_ge [OF d this] ge
    have "\<not> float_add ?p FLOAT_1E_6 < max ?p FLOAT_0_6" by simp
    moreover from ge have "\<not> ?p + FLOAT_1E_6 \<le> FLOAT_0_6 - 1 / 18014398509481984"
      by (simp add: FLOAT_1E_6_def)
    ultimately show ?thesis by simp
  qed
  have c: "if b then
            score_of (state g') sid = min 1 (max ?p FLOAT_0_6)
            \<and> map_of (last_event_ts (state g')) sid = Some (At ts)
            \<and> map_of (occupied (state g')) sid
                = Some (score_of (state g') sid > decay_threshold g)
            \<and> (score_of (state g') sid > decay_threshold g \<longrightarrow>
                  map_of (space_counts (state g')) sid = Some 1)
          else g' = g"
    using assms
    by (auto simp: compute_boost_def Let_def score_of_def map_of_update_same split: if_splits)
  from a t c show ?thesis by blast
qed

theorem compute_boost_epsilon_witness:
  "fst (compute_boost demo_engine ''kitchen'' 2)
   \<and> score_of (state (snd (compute_boost demo_engine ''kitchen'' 2))) ''kitchen'' = FLOAT_0_6
   \<and> map_of (occupied (state (snd (compute_boost demo_engine ''kitchen'' 2)))) ''kitchen''
       = Some True"
proof -
  obtain b g' where c: "compute_boost demo_engine ''kitchen'' 2 = (b, g')"
    by (cases "compute_boost demo_engine ''kitchen'' 2") auto
  have pre: "has_key ''kitchen'' (spaces demo_engine)"
    "score_of (state demo_engine) ''kitchen'' = 0"
    "decay_threshold demo_engine = 2 / 10"
    by (simp_all add: has_key_def score_of_def demo_defs const_defs)
  have n: "(0 :: real) < FLOAT_0_6" "0 + FLOAT_1E_6 \<le> FLOAT_0_6 - 1 / 18014398509481984"
    "min 1 (max 0 FLOAT_0_6) = FLOAT_0_6" "2 / 10 < FLOAT_0_6"
    by (simp_all add: FLOAT_0_6_def FLOAT_1E_6_def)
  from compute_boost_epsilon [OF c] have
    e: "score_of (state demo_engine) ''kitchen'' < FLOAT_0_6
          \<or> round64 (score_of (state demo_engine) ''kitchen'')
              = score_of (state demo_engine) ''kitchen'' \<longrightarrow>
        (b \<longleftrightarrow> has_key ''kitchen'' (spaces demo_engine)
           \<and> score_of (state demo_engine) ''kitchen'' + FLOAT_1E_6
               \<le> FLOAT_0_6 - 1 / 18014398509481984)"
    and f: "if b then
        score_of (state g') ''kitchen''
          = min 1 (max (score_of (state demo_engine) ''kitchen'') FLOAT_0_6)
        \<and> map_of (last_event_ts (state g')) ''kitchen'' = Some (At 2)
        \<and> map_of (occupied (state g')) ''kitchen''
            = Some (score_of (state g') ''kitchen'' > decay_threshold demo_engine)
        \<and> (score_of (state g') ''kitchen'' > decay_threshold demo_engine \<longrightarrow>
              map_of (space_counts (state g')) ''kitchen'' = Some 1)
      else g' = demo_engine"
    by blast+
  from e pre n have b by simp
  with f pre n show ?thesis
    by (simp add: c)
qed

text \<open>
  C7 as stated fails: a target whose score is the float \<open>0.599999\<close>, below \<open>0.6\<close> and
  even below \<open>0.6 - 1e-6\<close>, is neither boosted nor reported, although \<open>max prev 0.6\<close> is
  strictly greater than its score: the sum \<open>0.599999 + 1e-6\<close> rounds to \<open>0.6\<close>.
\<close>

definition nearly_boosted :: engine where
  "nearly_boosted =
     demo_engine\<lparr>state := demo_state
       \<lparr>scores := [(''living'', 0), (''kitchen'', 1351077636411335 / 2251799813685248)],
        occupied := [(''living'', False), (''kitchen'', True)]\<rparr>\<rparr>"

theorem compute_boost_below_threshold_counterexample:
  "has_key ''kitchen'' (spaces nearly_boosted)
   \<and> round64 (score_of (state nearly_boosted) ''kitchen'') = score_of (state nearly_boosted) ''kitchen''
   \<and> score_of (state nearly_boosted) ''kitchen'' < FLOAT_0_6
   \<and> score_of (state nearly_boosted) ''kitchen'' < 6 / 10 - 1 / 1000000
   \<and> max (score_of (state nearly_boosted) ''kitchen'') FLOAT_0_6
        > score_of (state nearly_boosted) ''kitchen''
   \<and> float_add (score_of (state nearly_boosted) ''kitchen'') FLOAT_1E_6 = FLOAT_0_6
   \<and> compute_boost nearly_boosted ''kitchen'' 2 = (False, nearly_boosted)"
proof -
  let ?s = "1351077636411335 / 2251799813685248 :: real"
  have s: "score_of (state nearly_boosted) ''kitchen'' = ?s"
    by (simp add: score_of_def nearly_boosted_def demo_defs)
  have k: "has_key ''kitchen'' (spaces nearly_boosted)"
    by (simp add: has_key_def nearly_boosted_def demo_defs)
  have n: "?s < FLOAT_0_6" "?s < 6 / 10 - 1 / 1000000"
    by (simp_all add: FLOAT_0_6_def)
  have h: "1 / 2 \<le> ?s + FLOAT_1E_6" "?s + FLOAT_1E_6 < 1"
    by (simp_all add: FLOAT_1E_6_def)
  have "real_of_int 5404319552844595 - 1 / 2 < (?s + FLOAT_1E_6) * 9007199254740992"
    "(?s + FLOAT_1E_6) * 9007199254740992 < real_of_int 5404319552844595 + 1 / 2"
    by (simp_all add: FLOAT_1E_6_def)
  then have "round_half_even ((?s + FLOAT_1E_6) * 9007199254740992) = 5404319552844595"
    by (rule rhe_nearest)
  then have r: "float_add ?s FLOAT_1E_6 = FLOAT_0_6"
    by (simp add: float_add_def round64_half_to_one [OF h] FLOAT_0_6_def)
  have d: "round64 ?s = ?s" by (rule round64_float_0_599999)
  have "compute_boost nearly_boosted ''kitchen'' 2 = (False, nearly_boosted)"
    using k n(1) by (simp add: compute_boost_def s r)
  with k d n r show ?thesis by (simp add: s)
qed

section \<open>Link traversal: the gates\<close>

lemma compute_boost_frame:
  "locked_links (snd (compute_boost g sid ts)) = locked_links g"
  "last_link_event (snd (compute_boost g sid ts)) = last_link_event g"
  "spaces (snd (compute_boost g sid ts)) = spaces g"
  "links (snd (compute_boost g sid ts)) = links g"
  "adjacency (snd (compute_boost g sid ts)) = adjacency g"
  "entity_index (snd (compute_boost g sid ts)) = entity_index g"
  "decay_threshold (snd (compute_boost g sid ts)) = decay_threshold g"
  "last_reason (snd (compute_boost g sid ts)) = last_reason g"
  "total_estimated (state (snd (compute_boost g sid ts))) = total_estimated (state g)"
  by (simp_all add: compute_boost_def Let_def)

lemma try_candidate_cases:
  "try_candidate ts lat (source, target) (chg, g) = (chg, g)
   \<or> try_candidate ts lat (source, target) (chg, g)
        = (if fst (compute_boost g target ts) then chg @ [target] else chg,
           snd (compute_boost g target ts))"
  by (simp add: Let_def case_prod_beta split: option.split stamp.split)


lemma try_candidate_frame:
  "locked_links (snd (try_candidate ts lat c acc)) = locked_links (snd acc)"
  "last_link_event (snd (try_candidate ts lat c acc)) = last_link_event (snd acc)"
  "spaces (snd (try_candidate ts lat c acc)) = spaces (snd acc)"
  "links (snd (try_candidate ts lat c acc)) = links (snd acc)"
  "adjacency (snd (try_candidate ts lat c acc)) = adjacency (snd acc)"
  "entity_index (snd (try_candidate ts lat c acc)) = entity_index (snd acc)"
  "decay_threshold (snd (try_candidate ts lat c acc)) = decay_threshold (snd acc)"
  "last_reason (snd (try_candidate ts lat c acc)) = last_reason (snd acc)"
  "total_estimated (state (snd (try_candidate ts lat c acc))) = total_estimated (state (snd acc))"
proof -
  obtain source target chg g where c: "c = (source, target)" and acc: "acc = (chg, g)"
    by (cases c, cases acc) auto
  note cb = compute_boost_frame [of g target ts]
  from try_candidate_cases [of ts lat source target chg g]
  show "locked_links (snd (try_candidate ts lat c acc)) = locked_links (snd acc)"
    "last_link_event (snd (try_candidate ts lat c acc)) = last_link_event (snd acc)"
    "spaces (snd (try_candidate ts lat c acc)) = spaces (snd acc)"
    "links (snd (try_candidate ts lat c acc)) = links (snd acc)"
    "adjacency (snd (try_candidate ts lat c acc)) = adjacency (snd acc)"
    "entity_index (snd (try_candidate ts lat c acc)) = entity_index (snd acc)"
    "decay_threshold (snd (try_candidate ts lat c acc)) = decay_threshold (snd acc)"
    "last_reason (snd (try_candidate ts lat c acc)) = last_reason (snd acc)"
    "total_estimated (state (snd (try_candidate ts lat c acc))) = total_estimated (state (snd acc))"
    unfolding c acc by (auto simp: cb simp del: try_candidate.simps)
qed

lemma fold_try_candidate_frame:
  "locked_links (snd (fold (try_candidate ts lat) cs acc)) = locked_links (snd acc)"
  "last_link_event (snd (fold (try_candidate ts lat) cs acc)) = last_link_event (snd acc)"
  "spaces (snd (fold (try_candidate ts lat) cs acc)) = spaces (snd acc)"
  "links (snd (fold (try_candidate ts lat) cs acc)) = links (snd acc)"
  "adjacency (snd (fold (try_candidate ts lat) cs acc)) = adjacency (snd acc)"
  "entity_index (snd (fold (try_candidate ts lat) cs acc)) = entity_index (snd acc)"
  "decay_threshold (snd (fold (try_candidate ts lat) cs acc)) = decay_threshold (snd acc)"
  "last_reason (snd (fold (try_candidate ts lat) cs acc)) = last_reason (snd acc)"
  "total_estimated (state (snd (fold (try_candidate ts lat) cs acc))) = total_estimated (state (snd acc))"
  by (induction cs arbitrary: acc; simp add: try_candidate_frame del: try_candidate.simps)+


lemma handle_link_activity_open:
  assumes "map_of (links g) lid = Some lk" "lid \<notin> locked_links g" "\<not> link_debounced g lid ts"
  shows "handle_link_activity g lid ts entity =
     (sorted_unique (fst (fold (try_candidate ts (real_of_int
          (if traversal_latency_s lk \<noteq> 0 then traversal_latency_s lk
           else DEFAULT_TRAVERSAL_LATENCY)))
        [(from_space lk, to_space lk), (to_space lk, from_space lk)]
        ([], g\<lparr>last_link_event := AList.update lid ts (last_link_event g)\<rparr>))),
      snd (fold (try_candidate ts (real_of_int
          (if traversal_latency_s lk \<noteq> 0 then traversal_latency_s lk
           else DEFAULT_TRAVERSAL_LATENCY)))
        [(from_space lk, to_space lk), (to_space lk, from_space lk)]
        ([], g\<lparr>last_link_event := AList.update lid ts (last_link_event g)\<rparr>)))"
  unfolding handle_link_activity_def Let_def
  by (simp only: assms option.case if_False case_prod_beta)

text \<open>
  C5 (amended). In link traversal handling the lock gate is evaluated before the debounce
  gate. For a known link: when the link is locked, or the event is debounced, nothing is
  propagated and the engine, the link's last-event time included, is left as it was;
  when the link is neither locked nor debounced, the event's timestamp is recorded as
  the link's last-event time.
\<close>

theorem lock_gate_before_debounce:
  assumes "map_of (links g) lid = Some lk"
  shows "(if lid \<in> locked_links g \<or> link_debounced g lid ts
          then handle_link_activity g lid ts entity = ([], g)
          else map_of (last_link_event (snd (handle_link_activity g lid ts entity))) lid = Some ts)"
proof (cases "lid \<in> locked_links g \<or> link_debounced g lid ts")
  case True
  with assms show ?thesis
    by (auto simp: handle_link_activity_def)
next
  case False
  then have "lid \<notin> locked_links g" "\<not> link_debounced g lid ts" by simp_all
  note opened = handle_link_activity_open [OF assms this, of entity]
  have "last_link_event (snd (handle_link_activity g lid ts entity))
        = AList.update lid ts (last_link_event g)"
    by (simp only: opened snd_conv fold_try_candidate_frame) simp
  with False show ?thesis
    by (simp add: update_conv')
qed


theorem lock_gate_before_debounce_witness:
  "map_of (links demo_engine) ''door'' = Some living_kitchen
   \<and> map_of (last_link_event (snd (handle_link_activity demo_engine ''door'' 2 ''door_motion'')))
        ''door'' = Some 2"
  using lock_gate_before_debounce [of demo_engine "''door''" living_kitchen 2 "''door_motion''"]
  by (simp add: demo_engine_def link_debounced_def)

text \<open>
  C5 as stated fails: on a locked link a link event that is not debounced leaves the
  link's last-event time unset.
\<close>

definition locked_demo :: engine where
  "locked_demo = demo_engine\<lparr>locked_links := {''door''}\<rparr>"

theorem locked_link_keeps_debounce_time_counterexample:
  "''door'' \<in> locked_links locked_demo
   \<and> \<not> link_debounced locked_demo ''door'' 1
   \<and> fst (handle_link_activity locked_demo ''door'' 1 ''door_motion'') = []
   \<and> map_of (last_link_event (snd (handle_link_activity locked_demo ''door'' 1 ''door_motion'')))
        ''door'' = None"
  by (simp add: handle_link_activity_def locked_demo_def demo_engine_def link_debounced_def)

section \<open>set_model and repeated ids\<close>

text \<open>
  \<^verbatim>\<open>ensure_unique_ids\<close> accepts exactly the duplicate-free lists. \<^verbatim>\<open>set_model\<close> calls it on
  the dicts it has just built from the lists, and the keys of a dict are distinct: the
  check never fails, whatever the lists hold.
\<close>

lemma keys_update_present:
  "k \<in> set (map fst al) \<Longrightarrow> map fst (AList.update k v al) = map fst al"
  by (simp add: update_keys)

lemma distinct_fold_update:
  "distinct (map fst d) \<Longrightarrow> distinct (map fst (fold (\<lambda>x. AList.update (key x) x) xs d))"
  by (induction xs arbitrary: d) (simp_all add: distinct_update)

lemma distinct_index_by: "distinct (map fst (index_by key xs))"
  by (simp add: index_by_def distinct_fold_update)

lemma ensure_unique_ids_from_iff:
  "ensure_unique_ids_from seen items = Inr () \<longleftrightarrow> distinct items \<and> set items \<inter> seen = {}"
  by (induction items arbitrary: seen) auto

lemma ensure_unique_ids_iff: "ensure_unique_ids items = Inr () \<longleftrightarrow> distinct items"
  by (simp add: ensure_unique_ids_def ensure_unique_ids_from_iff)

lemma ensure_unique_ids_index_by: "ensure_unique_ids (map fst (index_by key xs)) = Inr ()"
  by (simp add: ensure_unique_ids_iff distinct_index_by)

lemma set_model_never_fails: "\<exists>g'. set_model g sps lks = Inr g'"
  by (simp add: set_model_def Let_def ensure_unique_ids_index_by case_prod_beta)

definition living_again :: space where
  "living_again = \<lparr>space_id = ''living'', space_name = ''Again'', include_in_total = True,
     space_motion_entities = [''again_motion''], presence_entities = [], timeout_s = 30\<rparr>"

text \<open>
  C1. The claim is that \<^verbatim>\<open>set_model\<close> fails with a duplicate-identifier error when an id
  repeats in the given spaces. On two spaces that share the id \<open>living\<close> the check, run
  on the given list, would raise; the engine instead is built, with the later space under
  that id.
\<close>

theorem set_model_accepts_repeated_id:
  "space_id living = space_id living_again
   \<and> ensure_unique_ids (map space_id [living, living_again])
       = Inl (Invalid ''Duplicate identifier: living'')
   \<and> (\<exists>g. init_engine [living, living_again] [] DEFAULT_DECAY_THRESHOLD = Inr g
          \<and> spaces g = [(''living'', living_again)])"
  by (simp add: init_engine_def set_model_def index_by_def ensure_unique_ids_def
      empty_engine_def reset_state_def register_space_def
      index_entities_def sorted_unique_def living_def living_again_def)

section \<open>Well-formed engines\<close>

text \<open>
  The invariant of the data model: the space ids are distinct and the four dicts of the
  dynamic state have exactly the space ids as keys, in the order of the spaces.
  \<^verbatim>\<open>set_model\<close> establishes it and every method keeps it.
\<close>

definition state_keys :: "presence_state \<Rightarrow> string list \<Rightarrow> bool" where
  "state_keys st ks \<longleftrightarrow>
     map fst (occupied st) = ks \<and> map fst (scores st) = ks
     \<and> map fst (last_event_ts st) = ks \<and> map fst (space_counts st) = ks"

definition engine_wf :: "engine \<Rightarrow> bool" where
  "engine_wf g \<longleftrightarrow>
     distinct (map fst (spaces g)) \<and> state_keys (state g) (map fst (spaces g))"

lemma decay_space_keys:
  "state_keys st ks \<Longrightarrow> sid \<in> set ks \<Longrightarrow> state_keys (decay_space thr now (sid, sp) st) ks"
  by (auto simp: state_keys_def decay_space_def Let_def keys_update_present)

lemma decay_space_frame:
  "last_event_ts (decay_space thr now p st) = last_event_ts st"
  "total_estimated (decay_space thr now p st) = total_estimated st"
  by (cases p; simp add: decay_space_def Let_def)+

lemma fold_decay_keys:
  "state_keys st ks \<Longrightarrow> set (map fst sps) \<subseteq> set ks
   \<Longrightarrow> state_keys (fold (decay_space thr now) sps st) ks"
proof (induction sps arbitrary: st)
  case Nil
  then show ?case by simp
next
  case (Cons p sps)
  obtain sid sp where p: "p = (sid, sp)" by (cases p)
  with Cons.prems have "state_keys (decay_space thr now p st) ks"
    by (simp add: decay_space_keys)
  with Cons show ?case by simp
qed

lemma fold_decay_frame:
  "last_event_ts (fold (decay_space thr now) sps st) = last_event_ts st"
  "total_estimated (fold (decay_space thr now) sps st) = total_estimated st"
  by (induction sps arbitrary: st; simp add: decay_space_frame)+

lemma apply_decay_frame:
  "spaces (apply_decay now g) = spaces g"
  "links (apply_decay now g) = links g"
  "entity_index (apply_decay now g) = entity_index g"
  "adjacency (apply_decay now g) = adjacency g"
  "locked_links (apply_decay now g) = locked_links g"
  "last_link_event (apply_decay now g) = last_link_event g"
  "last_reason (apply_decay now g) = last_reason g"
  "decay_threshold (apply_decay now g) = decay_threshold g"
  "last_event_ts (state (apply_decay now g)) = last_event_ts (state g)"
  "total_estimated (state (apply_decay now g)) = total_estimated (state g)"
  by (simp_all add: apply_decay_def fold_decay_frame)

lemma apply_decay_wf: "engine_wf g \<Longrightarrow> engine_wf (apply_decay now g)"
  by (simp add: engine_wf_def apply_decay_frame)
     (simp add: apply_decay_def fold_decay_keys)

lemma activate_space_wf: "engine_wf g \<Longrightarrow> engine_wf (snd (activate_space g sid ts e))"
  by (auto simp: engine_wf_def activate_space_def Let_def state_keys_def has_key_def
      keys_update_present)

lemma compute_boost_wf: "engine_wf g \<Longrightarrow> engine_wf (snd (compute_boost g sid ts))"
  by (auto simp: engine_wf_def compute_boost_def Let_def state_keys_def has_key_def
      keys_update_present)

lemma try_candidate_wf: "engine_wf (snd acc) \<Longrightarrow> engine_wf (snd (try_candidate ts lat c acc))"
proof -
  assume wf: "engine_wf (snd acc)"
  obtain source target chg g where c: "c = (source, target)" and acc: "acc = (chg, g)"
    by (cases c, cases acc) auto
  from try_candidate_cases [of ts lat source target chg g] wf compute_boost_wf [of g target ts]
  show ?thesis unfolding c acc by (auto simp del: try_candidate.simps)
qed

lemma fold_try_candidate_wf:
  "engine_wf (snd acc) \<Longrightarrow> engine_wf (snd (fold (try_candidate ts lat) cs acc))"
  by (induction cs arbitrary: acc) (simp_all add: try_candidate_wf del: try_candidate.simps)

lemma handle_link_activity_wf:
  assumes "engine_wf g"
  shows "engine_wf (snd (handle_link_activity g lid ts e))"
proof (cases "map_of (links g) lid")
  case None
  with assms show ?thesis by (simp add: handle_link_activity_def)
next
  case (Some lk)
  show ?thesis
  proof (cases "lid \<in> locked_links g \<or> link_debounced g lid ts")
    case True
    with Some assms show ?thesis by (auto simp: handle_link_activity_def)
  next
    case False
    then have nl: "lid \<notin> locked_links g" "\<not> link_debounced g lid ts" by simp_all
    have "engine_wf (g\<lparr>last_link_event := AList.update lid ts (last_link_event g)\<rparr>)"
      using assms by (simp add: engine_wf_def)
    then show ?thesis
      by (simp only: handle_link_activity_open [OF Some nl, of e] snd_conv
          fold_try_candidate_wf)
  qed
qed

lemma handle_link_lock_wf: "engine_wf g \<Longrightarrow> engine_wf (snd (handle_link_lock g lid ev))"
  by (simp add: handle_link_lock_def Let_def engine_wf_def)

section \<open>The totals of a well-formed engine\<close>

text \<open>
  On a well-formed engine \<^verbatim>\<open>_recalculate_totals\<close> raises nothing: every occupied id is a
  space. \<open>included_ids\<close> is its list \<^verbatim>\<open>included\<close>, \<open>next_total\<close> the total it stores and
  \<open>totals_applied\<close> the engine it leaves.
\<close>

lemma included_spaces_total:
  "set sids \<subseteq> set (map fst sps) \<Longrightarrow>
     included_spaces sps sids
       = Inr (filter (\<lambda>sid. \<exists>sp. map_of sps sid = Some sp \<and> include_in_total sp) sids)"
proof (induction sids)
  case Nil
  then show ?case by simp
next
  case (Cons sid sids)
  then have "sid \<in> fst ` set sps" by simp
  then obtain sp where "map_of sps sid = Some sp"
    by (metis map_of_eq_None_iff not_Some_eq)
  with Cons show ?case by simp
qed

lemma occupied_spaces_keys: "set (occupied_spaces st) \<subseteq> set (map fst (occupied st))"
  by (auto simp: occupied_spaces_def)

definition included_ids :: "engine \<Rightarrow> string list" where
  "included_ids g =
     filter (\<lambda>sid. \<exists>sp. map_of (spaces g) sid = Some sp \<and> include_in_total sp)
       (occupied_spaces (state g))"

definition next_total :: "engine \<Rightarrow> int" where
  "next_total g =
     (if included_ids g = [] then 0
      else clamp_total (total_estimated (state g))
             (max (count_clusters (adjacency g) (included_ids g)) 1))"

definition totals_applied :: "engine \<Rightarrow> engine" where
  "totals_applied g =
     g\<lparr>state := (state g)
        \<lparr>space_counts :=
           map (\<lambda>(sid, _). (sid, if sid \<in> set (occupied_spaces (state g)) then 1 else 0))
             (spaces g),
         total_estimated := next_total g\<rparr>\<rparr>"

lemma recalculate_totals_wf:
  assumes "engine_wf g"
  shows "recalculate_totals g = Inr (totals_applied g)"
proof -
  from assms have "set (occupied_spaces (state g)) \<subseteq> set (map fst (spaces g))"
    using occupied_spaces_keys [of "state g"] by (simp add: engine_wf_def state_keys_def)
  from included_spaces_total [OF this]
  have inc: "included_spaces (spaces g) (occupied_spaces (state g)) = Inr (included_ids g)"
    by (simp add: included_ids_def)
  have "occupied_spaces (state g) = [] \<Longrightarrow> included_ids g = []"
    by (simp add: included_ids_def)
  then show ?thesis
    by (auto simp: recalculate_totals_def Let_def inc next_total_def totals_applied_def)
qed

lemma next_total_bounds:
  "0 \<le> total_estimated (state g) \<Longrightarrow>
     0 \<le> next_total g \<and> next_total g \<le> total_estimated (state g) + 1"
  by (auto simp: next_total_def clamp_total_def)

lemma totals_applied_frame:
  "spaces (totals_applied g) = spaces g"
  "links (totals_applied g) = links g"
  "entity_index (totals_applied g) = entity_index g"
  "adjacency (totals_applied g) = adjacency g"
  "locked_links (totals_applied g) = locked_links g"
  "last_link_event (totals_applied g) = last_link_event g"
  "last_reason (totals_applied g) = last_reason g"
  "decay_threshold (totals_applied g) = decay_threshold g"
  "occupied (state (totals_applied g)) = occupied (state g)"
  "scores (state (totals_applied g)) = scores (state g)"
  "last_event_ts (state (totals_applied g)) = last_event_ts (state g)"
  "total_estimated (state (totals_applied g)) = next_total g"
  by (simp_all add: totals_applied_def)

lemma totals_applied_wf: "engine_wf g \<Longrightarrow> engine_wf (totals_applied g)"
proof -
  have "map fst (map (\<lambda>(sid, _). (sid, if sid \<in> set (occupied_spaces (state g)) then 1 else 0 :: int))
          (spaces g)) = map fst (spaces g)"
    by (induction "spaces g") (auto simp: case_prod_beta)
  then show "engine_wf g \<Longrightarrow> engine_wf (totals_applied g)"
    by (simp add: engine_wf_def state_keys_def totals_applied_def)
qed

lemma activate_space_frame:
  "spaces (snd (activate_space g sid ts e)) = spaces g"
  "links (snd (activate_space g sid ts e)) = links g"
  "entity_index (snd (activate_space g sid ts e)) = entity_index g"
  "adjacency (snd (activate_space g sid ts e)) = adjacency g"
  "locked_links (snd (activate_space g sid ts e)) = locked_links g"
  "last_link_event (snd (activate_space g sid ts e)) = last_link_event g"
  "last_reason (snd (activate_space g sid ts e)) = last_reason g"
  "decay_threshold (snd (activate_space g sid ts e)) = decay_threshold g"
  "total_estimated (state (snd (activate_space g sid ts e))) = total_estimated (state g)"
  by (simp_all add: activate_space_def Let_def)

lemma handle_link_lock_frame:
  "spaces (snd (handle_link_lock g lid ev)) = spaces g"
  "links (snd (handle_link_lock g lid ev)) = links g"
  "entity_index (snd (handle_link_lock g lid ev)) = entity_index g"
  "adjacency (snd (handle_link_lock g lid ev)) = adjacency g"
  "last_link_event (snd (handle_link_lock g lid ev)) = last_link_event g"
  "last_reason (snd (handle_link_lock g lid ev)) = last_reason g"
  "decay_threshold (snd (handle_link_lock g lid ev)) = decay_threshold g"
  "state (snd (handle_link_lock g lid ev)) = state g"
  "fst (handle_link_lock g lid ev) = ATTR_REASON_LINK"
  by (simp_all add: handle_link_lock_def Let_def)

lemma handle_link_activity_frame:
  "spaces (snd (handle_link_activity g lid ts e)) = spaces g"
  "links (snd (handle_link_activity g lid ts e)) = links g"
  "entity_index (snd (handle_link_activity g lid ts e)) = entity_index g"
  "adjacency (snd (handle_link_activity g lid ts e)) = adjacency g"
  "locked_links (snd (handle_link_activity g lid ts e)) = locked_links g"
  "last_reason (snd (handle_link_activity g lid ts e)) = last_reason g"
  "decay_threshold (snd (handle_link_activity g lid ts e)) = decay_threshold g"
  "total_estimated (state (snd (handle_link_activity g lid ts e))) = total_estimated (state g)"
proof -
  have "spaces (snd (handle_link_activity g lid ts e)) = spaces g
    \<and> links (snd (handle_link_activity g lid ts e)) = links g
    \<and> entity_index (snd (handle_link_activity g lid ts e)) = entity_index g
    \<and> adjacency (snd (handle_link_activity g lid ts e)) = adjacency g
    \<and> locked_links (snd (handle_link_activity g lid ts e)) = locked_links g
    \<and> last_reason (snd (handle_link_activity g lid ts e)) = last_reason g
    \<and> decay_threshold (snd (handle_link_activity g lid ts e)) = decay_threshold g
    \<and> total_estimated (state (snd (handle_link_activity g lid ts e))) = total_estimated (state g)"
  proof (cases "map_of (links g) lid")
    case None
    then show ?thesis by (simp add: handle_link_activity_def)
  next
    case (Some lk)
    show ?thesis
    proof (cases "lid \<in> locked_links g \<or> link_debounced g lid ts")
      case True
      with Some show ?thesis by (auto simp: handle_link_activity_def)
    next
      case False
      then have nl: "lid \<notin> locked_links g" "\<not> link_debounced g lid ts" by simp_all
      show ?thesis
        by (simp only: handle_link_activity_open [OF Some nl, of e] snd_conv
            fold_try_candidate_frame) simp
    qed
  qed
  then show
    "spaces (snd (handle_link_activity g lid ts e)) = spaces g"
    "links (snd (handle_link_activity g lid ts e)) = links g"
    "entity_index (snd (handle_link_activity g lid ts e)) = entity_index g"
    "adjacency (snd (handle_link_activity g lid ts e)) = adjacency g"
    "locked_links (snd (handle_link_activity g lid ts e)) = locked_links g"
    "last_reason (snd (handle_link_activity g lid ts e)) = last_reason g"
    "decay_threshold (snd (handle_link_activity g lid ts e)) = decay_threshold g"
    "total_estimated (state (snd (handle_link_activity g lid ts e))) = total_estimated (state g)"
    by simp_all
qed

lemma dispatch_wf: "engine_wf g \<Longrightarrow> engine_wf (snd (snd (dispatch g et tid ev)))"
  using activate_space_wf [of g tid "timestamp ev" "entity_id ev"]
    handle_link_lock_wf [of g tid ev]
    handle_link_activity_wf [of g tid "timestamp ev" "entity_id ev"]
  by (simp add: dispatch_def case_prod_beta)

lemma dispatch_frame:
  "spaces (snd (snd (dispatch g et tid ev))) = spaces g"
  "links (snd (snd (dispatch g et tid ev))) = links g"
  "entity_index (snd (snd (dispatch g et tid ev))) = entity_index g"
  "adjacency (snd (snd (dispatch g et tid ev))) = adjacency g"
  "last_reason (snd (snd (dispatch g et tid ev))) = last_reason g"
  "decay_threshold (snd (snd (dispatch g et tid ev))) = decay_threshold g"
  "total_estimated (state (snd (snd (dispatch g et tid ev)))) = total_estimated (state g)"
  by (simp_all add: dispatch_def case_prod_beta activate_space_frame handle_link_lock_frame
      handle_link_activity_frame)

section \<open>process_event on a well-formed engine\<close>

lemma process_event_unknown:
  "map_of (entity_index g) (entity_id ev) = None \<Longrightarrow>
     process_event g ev =
       Inr (make_update (apply_decay (timestamp ev) g) [] ATTR_REASON_DECAY None None None,
            apply_decay (timestamp ev) g)"
  by (simp add: process_event_def Let_def)

lemma process_event_short:
  "map_of (entity_index g) (entity_id ev) = Some (et, tid) \<Longrightarrow> short_pulse ev \<Longrightarrow>
     process_event g ev =
       Inr (make_update (apply_decay (timestamp ev) g) [] ATTR_REASON_DECAY None None None,
            apply_decay (timestamp ev) g)"
  by (simp add: process_event_def Let_def)

text \<open>The engine on which \<^verbatim>\<open>process_event\<close> recomputes the totals after the dispatch.\<close>

definition dispatched :: "engine \<Rightarrow> string \<Rightarrow> string \<Rightarrow> GraphEvent \<Rightarrow> engine" where
  "dispatched g et tid ev =
     (let d = dispatch (apply_decay (timestamp ev) g) et tid ev
      in if fst d \<noteq> [] then (snd (snd d))\<lparr>last_reason := fst (snd d)\<rparr> else snd (snd d))"

lemma dispatched_wf: "engine_wf g \<Longrightarrow> engine_wf (dispatched g et tid ev)"
  using dispatch_wf [OF apply_decay_wf, of g "timestamp ev" et tid ev]
  by (simp add: dispatched_def Let_def engine_wf_def)

lemma dispatched_total:
  "total_estimated (state (dispatched g et tid ev)) = total_estimated (state g)"
  by (simp add: dispatched_def Let_def dispatch_frame apply_decay_frame)

lemma process_event_dispatched:
  assumes "engine_wf g" "map_of (entity_index g) (entity_id ev) = Some (et, tid)"
    "\<not> short_pulse ev"
  shows "process_event g ev =
     Inr (make_update (totals_applied (dispatched g et tid ev))
            (fst (dispatch (apply_decay (timestamp ev) g) et tid ev))
            (if fst (dispatch (apply_decay (timestamp ev) g) et tid ev) \<noteq> []
             then fst (snd (dispatch (apply_decay (timestamp ev) g) et tid ev))
             else last_reason (dispatched g et tid ev))
            (Some (entity_id ev))
            (if et = ''space'' then Some tid else None)
            (if et \<noteq> ''space'' then Some tid else None),
          totals_applied (dispatched g et tid ev))"
proof -
  have r: "recalculate_totals (dispatched g et tid ev) = Inr (totals_applied (dispatched g et tid ev))"
    by (rule recalculate_totals_wf [OF dispatched_wf [OF assms(1)]])
  obtain chg rsn g2 where d: "dispatch (apply_decay (timestamp ev) g) et tid ev = (chg, rsn, g2)"
    by (cases "dispatch (apply_decay (timestamp ev) g) et tid ev") auto
  have dd: "dispatched g et tid ev = (if chg \<noteq> [] then g2\<lparr>last_reason := rsn\<rparr> else g2)"
    by (simp add: dispatched_def d)
  show ?thesis
    using assms(2,3) r d dd
    by (auto simp: process_event_def Let_def totals_applied_frame)
qed

lemma process_event_total:
  assumes "engine_wf g"
  shows "\<exists>u g'. process_event g ev = Inr (u, g') \<and> engine_wf g' \<and> upd_state u = state g'"
proof (cases "map_of (entity_index g) (entity_id ev)")
  case None
  with assms show ?thesis
    by (simp add: process_event_unknown apply_decay_wf make_update_def)
next
  case (Some p)
  obtain et tid where p: "p = (et, tid)" by (cases p)
  show ?thesis
  proof (cases "short_pulse ev")
    case True
    with Some p assms show ?thesis
      by (simp add: process_event_short apply_decay_wf make_update_def)
  next
    case False
    with Some p assms show ?thesis
      by (simp add: process_event_dispatched totals_applied_wf dispatched_wf make_update_def)
  qed
qed

lemma process_event_total_bound:
  assumes "engine_wf g" "0 \<le> total_estimated (state g)" "process_event g ev = Inr (u, g')"
  shows "0 \<le> total_estimated (state g') \<and> total_estimated (state g') \<le> total_estimated (state g) + 1"
proof (cases "map_of (entity_index g) (entity_id ev)")
  case None
  with assms show ?thesis
    by (auto simp: process_event_unknown apply_decay_frame)
next
  case (Some p)
  obtain et tid where p: "p = (et, tid)" by (cases p)
  show ?thesis
  proof (cases "short_pulse ev")
    case True
    with Some p assms show ?thesis
      by (auto simp: process_event_short apply_decay_frame)
  next
    case False
    from assms(2) have "0 \<le> total_estimated (state (dispatched g et tid ev))"
      by (simp add: dispatched_total)
    from next_total_bounds [OF this] False Some p assms show ?thesis
      by (auto simp: process_event_dispatched totals_applied_frame dispatched_total)
  qed
qed

section \<open>Manual overrides\<close>

text \<open>The engine after the assignments of \<^verbatim>\<open>force_space_state\<close>, before the totals.\<close>

definition forced :: "engine \<Rightarrow> real \<Rightarrow> string \<Rightarrow> bool \<Rightarrow> real option \<Rightarrow> engine" where
  "forced g now sid occ score =
     (let st = state g;
          score_to_apply =
            max 0 (min 1 (case score of Some s \<Rightarrow> s | None \<Rightarrow> if occ then 1 else 0));
          st1 = st\<lparr>scores := AList.update sid score_to_apply (scores st),
                   occupied :=
                     AList.update sid
                       (if occ then occ else score_to_apply > decay_threshold g)
                       (occupied st)\<rparr>;
          st2 = (if occ then st1\<lparr>last_event_ts := AList.update sid (At now) (last_event_ts st1)\<rparr>
                 else st1)
      in g\<lparr>state := st2\<rparr>)"

lemma forced_wf: "engine_wf g \<Longrightarrow> has_key sid (spaces g) \<Longrightarrow> engine_wf (forced g now sid occ score)"
  by (auto simp: engine_wf_def forced_def Let_def state_keys_def has_key_def keys_update_present)

lemma forced_total:
  "total_estimated (state (forced g now sid occ score)) = total_estimated (state g)"
  by (simp add: forced_def Let_def)

lemma force_space_state_known:
  assumes "engine_wf g" "has_key sid (spaces g)"
  shows "force_space_state g now sid occ score rsn =
     Inr (make_update (totals_applied (forced g now sid occ score)) [sid] rsn None (Some sid) None,
          totals_applied (forced g now sid occ score))"
proof -
  have "recalculate_totals (forced g now sid occ score)
        = Inr (totals_applied (forced g now sid occ score))"
    by (rule recalculate_totals_wf [OF forced_wf [OF assms]])
  then show ?thesis using assms(2)
    by (simp add: force_space_state_def forced_def Let_def)
qed

lemma force_space_state_unknown:
  "\<not> has_key sid (spaces g) \<Longrightarrow>
     force_space_state g now sid occ score rsn = Inr (make_update g [] rsn None None None, g)"
  by (simp add: force_space_state_def)

lemma score_of_totals_applied: "score_of (state (totals_applied g)) sid = score_of (state g) sid"
  by (simp add: score_of_def totals_applied_frame)

lemma demo_engine_wf: "engine_wf demo_engine"
  by (simp add: engine_wf_def state_keys_def demo_engine_def demo_state_def)

section \<open>Lock events\<close>

lemma state_is_locked_iff:
  "state_is_locked v \<longleftrightarrow>
     v = PBool True \<or> (\<exists>s. v = PStr s \<and> lower s \<in> {''on'', ''locked'', ''true''})"
  by (cases v) auto

lemma dispatch_link_lock:
  "dispatch g ''link_lock'' lid ev =
     ([], ATTR_REASON_LINK,
      if state_is_locked (new_state ev) then g\<lparr>locked_links := insert lid (locked_links g)\<rparr>
      else g\<lparr>locked_links := locked_links g - {lid}\<rparr>)"
  by (simp add: dispatch_def handle_link_lock_def Let_def)

lemma link_lock_event_result:
  assumes "engine_wf g" "map_of (entity_index g) (entity_id ev) = Some (''link_lock'', lid)"
  shows "\<exists>u g'. process_event g ev = Inr (u, g') \<and> changed u = []
     \<and> (if short_pulse ev then locked_links g' = locked_links g \<and> reason u = ATTR_REASON_DECAY
        else locked_links g'
               = (if state_is_locked (new_state ev) then insert lid (locked_links g)
                  else locked_links g - {lid})
             \<and> reason u = last_reason g \<and> last_reason g' = last_reason g
             \<and> upd_link u = Some lid \<and> upd_space u = None)"
proof (cases "short_pulse ev")
  case True
  with assms(2) show ?thesis
    by (simp add: process_event_short make_update_def apply_decay_frame)
next
  case False
  have d: "dispatched g ''link_lock'' lid ev =
      (if state_is_locked (new_state ev)
       then (apply_decay (timestamp ev) g)\<lparr>locked_links := insert lid (locked_links g)\<rparr>
       else (apply_decay (timestamp ev) g)\<lparr>locked_links := locked_links g - {lid}\<rparr>)"
    by (simp add: dispatched_def dispatch_link_lock apply_decay_frame)
  from False show ?thesis
    unfolding process_event_dispatched [OF assms False]
    by (simp add: make_update_def totals_applied_frame dispatch_link_lock d apply_decay_frame)
qed

text \<open>
  C8 (amended). A \<^verbatim>\<open>process_event\<close> call whose entity is indexed as a lock entity never
  reports a changed space. When the event's duration is absent or at least
  \<open>MIN_EVENT_DURATION\<close>, the link is added to \<open>locked_links\<close> if the new state reads as
  locked (\<open>state_is_locked\<close>: the boolean true, or a string that lower-cases to on, locked
  or true) and removed otherwise, the update names the link and no space, and the
  reported reason is the remembered \<open>last_reason\<close>, which the call leaves as it was. When
  the duration is below \<open>MIN_EVENT_DURATION\<close>, the locked links are left as they were
  and the reason is decay.
\<close>

theorem link_lock_event:
  assumes "engine_wf g" "map_of (entity_index g) (entity_id ev) = Some (''link_lock'', lid)"
  shows "\<exists>u g'. process_event g ev = Inr (u, g') \<and> changed u = []
     \<and> (if short_pulse ev then locked_links g' = locked_links g \<and> reason u = ATTR_REASON_DECAY
        else locked_links g'
               = (if state_is_locked (new_state ev) then insert lid (locked_links g)
                  else locked_links g - {lid})
             \<and> reason u = last_reason g \<and> last_reason g' = last_reason g
             \<and> upd_link u = Some lid \<and> upd_space u = None)"
  using assms by (rule link_lock_event_result)

definition door_locks :: GraphEvent where
  "door_locks = \<lparr>entity_id = ''door_lock'', new_state = PStr ''locked'',
     old_state = Some (PStr ''unlocked''), timestamp = 0, duration = None\<rparr>"

lemma door_locks_indexed:
  "map_of (entity_index demo_engine) (entity_id door_locks) = Some (''link_lock'', ''door'')"
  "\<not> short_pulse door_locks" "state_is_locked (new_state door_locks)"
  by (simp_all add: demo_engine_def door_locks_def short_pulse_def lower_locked)

theorem link_lock_event_witness:
  "engine_wf demo_engine
   \<and> (\<exists>u g'. process_event demo_engine door_locks = Inr (u, g') \<and> changed u = []
         \<and> locked_links g' = {''door''} \<and> upd_link u = Some ''door'')"
  using link_lock_event [OF demo_engine_wf door_locks_indexed(1)] door_locks_indexed(2,3)
    demo_engine_wf
  by (auto simp: demo_engine_def)

text \<open>
  C8 as stated fails: on the fresh engine a lock entity that reads \<open>locked\<close> locks the
  door, and the update reports the remembered reason \<open>decay\<close>, not \<open>link_event\<close>.
\<close>

theorem link_lock_reason_counterexample:
  "\<exists>u g'. process_event demo_engine door_locks = Inr (u, g')
     \<and> ''door'' \<in> locked_links g' \<and> reason u = ''decay'' \<and> reason u \<noteq> ATTR_REASON_LINK"
  using link_lock_event_result [OF demo_engine_wf door_locks_indexed(1)] door_locks_indexed(2,3)
  by (auto simp: demo_engine_def reason_defs)

section \<open>Two rooms with no door\<close>

text \<open>
  The same two rooms without the link, for runs in which both rooms count. The three
  steps are calls of \<^verbatim>\<open>process_event\<close> evaluated on the model: a motion in the living room
  at time 0, a motion in the kitchen at time 1, and a reading \<open>off\<close> at time 1000, when
  both scores have decayed to 0.
\<close>

lemmas engine_eval =
  process_event_def short_pulse_def make_update_def dispatch_def activate_space_def
  handle_link_lock_def handle_link_activity_def link_debounced_def compute_boost_def
  apply_decay_def decay_space_def decay_target_def score_of_def
  recalculate_totals_def occupied_spaces_def clamp_total_def count_clusters_def
  count_from.simps bfs.simps neighbours_def has_key_def sorted_unique_def
  force_space_state_def Let_def

definition apart :: engine where
  "apart = demo_engine\<lparr>links := [],
     entity_index := [(''living_motion'', (''space'', ''living'')),
                      (''kitchen_motion'', (''space'', ''kitchen''))],
     adjacency := [(''living'', []), (''kitchen'', [])]\<rparr>"

lemma apart_init: "init_engine [living, kitchen] [] DEFAULT_DECAY_THRESHOLD = Inr apart"
  by (simp add: init_engine_def set_model_def index_by_def ensure_unique_ids_def
      empty_engine_def reset_state_def register_space_def register_link_def
      index_entities_def sorted_unique_def has_key_def set_add_def demo_defs apart_def)

definition sensor_event :: "string \<Rightarrow> string \<Rightarrow> real \<Rightarrow> GraphEvent" where
  "sensor_event entity reading ts =
     \<lparr>entity_id = entity, new_state = PStr reading, old_state = None, timestamp = ts,
      duration = None\<rparr>"

definition apart_living :: engine where
  "apart_living = apart\<lparr>last_reason := ATTR_REASON_SENSOR,
     state := \<lparr>occupied = [(''living'', True), (''kitchen'', False)],
       scores = [(''living'', 1), (''kitchen'', 0)],
       total_estimated = 1,
       last_event_ts = [(''living'', At 0), (''kitchen'', NegInf)],
       space_counts = [(''living'', 1), (''kitchen'', 0)]\<rparr>\<rparr>"

definition apart_both :: engine where
  "apart_both = apart\<lparr>last_reason := ATTR_REASON_SENSOR,
     state := \<lparr>occupied = [(''living'', True), (''kitchen'', True)],
       scores = [(''living'', 59 / 60), (''kitchen'', 1)],
       total_estimated = 2,
       last_event_ts = [(''living'', At 0), (''kitchen'', At 1)],
       space_counts = [(''living'', 1), (''kitchen'', 1)]\<rparr>\<rparr>"

definition apart_empty :: engine where
  "apart_empty = apart\<lparr>last_reason := ATTR_REASON_SENSOR,
     state := \<lparr>occupied = [(''living'', False), (''kitchen'', False)],
       scores = [(''living'', 0), (''kitchen'', 0)],
       total_estimated = 0,
       last_event_ts = [(''living'', At 0), (''kitchen'', At 1)],
       space_counts = [(''living'', 0), (''kitchen'', 0)]\<rparr>\<rparr>"

lemma apart_step1:
  "\<exists>u. process_event apart (sensor_event ''living_motion'' ''on'' 0) = Inr (u, apart_living)"
  by (simp add: engine_eval apart_def apart_living_def demo_defs sensor_event_def
      lower_literals const_defs)

lemma apart_step2:
  "\<exists>u. process_event apart_living (sensor_event ''kitchen_motion'' ''on'' 1) = Inr (u, apart_both)"
  by (simp add: engine_eval apart_def apart_living_def apart_both_def demo_defs sensor_event_def
      lower_literals const_defs)

lemma apart_step3:
  "\<exists>u. process_event apart_both (sensor_event ''kitchen_motion'' ''off'' 1000)
         = Inr (u, apart_empty)"
  by (simp add: engine_eval apart_def apart_both_def apart_empty_def demo_defs sensor_event_def
      lower_literals const_defs)


section \<open>The decay pass\<close>

text \<open>
  \<open>stamp_of\<close> reads \<^verbatim>\<open>last_event_ts\<close> as the decay pass does, with \<^verbatim>\<open>-inf\<close> for a missing
  key. The pass treats every space on its own: it writes only the entries of the space
  at hand and reads only those.
\<close>

definition stamp_of :: "presence_state \<Rightarrow> string \<Rightarrow> stamp" where
  "stamp_of st sid = (case map_of (last_event_ts st) sid of Some t \<Rightarrow> t | None \<Rightarrow> NegInf)"

lemma decay_space_same:
  "map_of (scores (decay_space thr now (sid, sp) st)) sid =
     (if decay_target now (stamp_of st sid) sp < score_of st sid
      then Some (decay_target now (stamp_of st sid) sp) else map_of (scores st) sid)"
  "map_of (occupied (decay_space thr now (sid, sp) st)) sid =
     (if decay_target now (stamp_of st sid) sp < score_of st sid
      then Some (decay_target now (stamp_of st sid) sp > thr) else map_of (occupied st) sid)"
  by (simp_all add: decay_space_def Let_def stamp_of_def map_of_update_same)

lemma decay_space_other:
  "sid' \<noteq> sid \<Longrightarrow>
     map_of (scores (decay_space thr now (sid, sp) st)) sid' = map_of (scores st) sid'"
  "sid' \<noteq> sid \<Longrightarrow>
     map_of (occupied (decay_space thr now (sid, sp) st)) sid' = map_of (occupied st) sid'"
  by (simp_all add: decay_space_def Let_def map_of_update_other)

lemma decay_space_views:
  "stamp_of (decay_space thr now p st) sid' = stamp_of st sid'"
  "sid' \<noteq> fst p \<Longrightarrow> score_of (decay_space thr now p st) sid' = score_of st sid'"
  by (cases p; simp add: stamp_of_def score_of_def decay_space_frame decay_space_other)+

lemma fold_decay_lookup:
  assumes "distinct (map fst sps)"
  shows "map_of (scores (fold (decay_space thr now) sps st)) sid =
     (case map_of sps sid of
        None \<Rightarrow> map_of (scores st) sid
      | Some sp \<Rightarrow>
          if decay_target now (stamp_of st sid) sp < score_of st sid
          then Some (decay_target now (stamp_of st sid) sp) else map_of (scores st) sid)
   \<and> map_of (occupied (fold (decay_space thr now) sps st)) sid =
     (case map_of sps sid of
        None \<Rightarrow> map_of (occupied st) sid
      | Some sp \<Rightarrow>
          if decay_target now (stamp_of st sid) sp < score_of st sid
          then Some (decay_target now (stamp_of st sid) sp > thr) else map_of (occupied st) sid)"
  using assms
proof (induction sps arbitrary: st)
  case Nil
  then show ?case by simp
next
  case (Cons p sps)
  obtain sid0 sp0 where p: "p = (sid0, sp0)" by (cases p)
  from Cons.prems p have d: "distinct (map fst sps)" and n: "sid0 \<notin> fst ` set sps" by auto
  note ih = Cons.IH [OF d, of "decay_space thr now (sid0, sp0) st"]
  show ?case
  proof (cases "sid = sid0")
    case True
    with n have "map_of sps sid = None" by (simp add: map_of_eq_None_iff)
    with ih True p show ?thesis by (simp add: decay_space_same)
  next
    case False
    then have v: "stamp_of (decay_space thr now (sid0, sp0) st) sid = stamp_of st sid"
      "score_of (decay_space thr now (sid0, sp0) st) sid = score_of st sid"
      "map_of (scores (decay_space thr now (sid0, sp0) st)) sid = map_of (scores st) sid"
      "map_of (occupied (decay_space thr now (sid0, sp0) st)) sid = map_of (occupied st) sid"
      by (simp_all add: decay_space_views decay_space_other)
    from False ih v p show ?thesis
      by (cases "map_of sps sid") simp_all
  qed
qed

lemma apply_decay_score:
  assumes "distinct (map fst (spaces g))"
  shows "score_of (state (apply_decay now g)) sid =
     (case map_of (spaces g) sid of
        None \<Rightarrow> score_of (state g) sid
      | Some sp \<Rightarrow> min (score_of (state g) sid) (decay_target now (stamp_of (state g) sid) sp))"
  using fold_decay_lookup [OF assms, of "decay_threshold g" now "state g" sid]
  by (auto simp: apply_decay_def score_of_def split: option.split)

lemma apply_decay_occupied:
  assumes "distinct (map fst (spaces g))"
  shows "map_of (occupied (state (apply_decay now g))) sid =
     (case map_of (spaces g) sid of
        None \<Rightarrow> map_of (occupied (state g)) sid
      | Some sp \<Rightarrow>
          if decay_target now (stamp_of (state g) sid) sp < score_of (state g) sid
          then Some (decay_target now (stamp_of (state g) sid) sp > decay_threshold g)
          else map_of (occupied (state g)) sid)"
  using fold_decay_lookup [OF assms, of "decay_threshold g" now "state g" sid]
  by (simp add: apply_decay_def)

lemma decay_target_nonneg: "0 \<le> decay_target now lst sp"
  by (simp add: decay_target_def Let_def split: stamp.split)









section \<open>Occupancy and the threshold\<close>

text \<open>
  \<open>threshold_inv\<close>: for every space, \<open>occupied\<close> holds exactly when the score exceeds the
  decay threshold.
\<close>

definition threshold_inv :: "engine \<Rightarrow> bool" where
  "threshold_inv g \<longleftrightarrow>
     (\<forall>sid \<in> set (map fst (spaces g)).
        map_of (occupied (state g)) sid = Some (score_of (state g) sid > decay_threshold g))"

lemma threshold_invD:
  "threshold_inv g \<Longrightarrow> sid \<in> fst ` set (spaces g) \<Longrightarrow>
     map_of (occupied (state g)) sid = Some (score_of (state g) sid > decay_threshold g)"
  by (auto simp: threshold_inv_def)

lemma threshold_invI:
  "(\<And>sid. sid \<in> fst ` set (spaces g) \<Longrightarrow>
      map_of (occupied (state g)) sid = Some (score_of (state g) sid > decay_threshold g))
   \<Longrightarrow> threshold_inv g"
  by (auto simp: threshold_inv_def)

lemma apply_decay_inv:
  assumes "distinct (map fst (spaces g))" "threshold_inv g"
  shows "threshold_inv (apply_decay now g)"
proof (rule threshold_invI)
  fix sid assume "sid \<in> fst ` set (spaces (apply_decay now g))"
  then have k: "sid \<in> fst ` set (spaces g)" by (simp add: apply_decay_frame)
  then obtain sp where sp: "map_of (spaces g) sid = Some sp"
    by (metis map_of_eq_None_iff not_Some_eq)
  from threshold_invD [OF assms(2) k]
  show "map_of (occupied (state (apply_decay now g))) sid
      = Some (score_of (state (apply_decay now g)) sid > decay_threshold (apply_decay now g))"
    by (simp add: apply_decay_occupied [OF assms(1)] apply_decay_score [OF assms(1)] sp
        apply_decay_frame min_def)
qed

lemma activate_space_inv:
  "threshold_inv g \<Longrightarrow> decay_threshold g < 1 \<Longrightarrow> threshold_inv (snd (activate_space g sid ts e))"
  by (auto simp: threshold_inv_def activate_space_def Let_def score_of_def update_conv')

lemma compute_boost_inv:
  "threshold_inv g \<Longrightarrow> threshold_inv (snd (compute_boost g sid ts))"
  by (auto simp: threshold_inv_def compute_boost_def Let_def score_of_def update_conv')

lemma try_candidate_inv:
  "threshold_inv (snd acc) \<Longrightarrow> threshold_inv (snd (try_candidate ts lat c acc))"
proof -
  assume inv: "threshold_inv (snd acc)"
  obtain source target chg g where c: "c = (source, target)" and acc: "acc = (chg, g)"
    by (cases c, cases acc) auto
  from try_candidate_cases [of ts lat source target chg g] inv compute_boost_inv [of g target ts]
  show ?thesis unfolding c acc by (auto simp del: try_candidate.simps)
qed

lemma fold_try_candidate_inv:
  "threshold_inv (snd acc) \<Longrightarrow> threshold_inv (snd (fold (try_candidate ts lat) cs acc))"
  by (induction cs arbitrary: acc) (simp_all add: try_candidate_inv del: try_candidate.simps)

lemma handle_link_activity_inv:
  assumes "threshold_inv g"
  shows "threshold_inv (snd (handle_link_activity g lid ts e))"
proof (cases "map_of (links g) lid")
  case None
  with assms show ?thesis by (simp add: handle_link_activity_def)
next
  case (Some lk)
  show ?thesis
  proof (cases "lid \<in> locked_links g \<or> link_debounced g lid ts")
    case True
    with Some assms show ?thesis by (auto simp: handle_link_activity_def)
  next
    case False
    then have nl: "lid \<notin> locked_links g" "\<not> link_debounced g lid ts" by simp_all
    have "threshold_inv (g\<lparr>last_link_event := AList.update lid ts (last_link_event g)\<rparr>)"
      using assms by (simp add: threshold_inv_def)
    then show ?thesis
      by (simp only: handle_link_activity_open [OF Some nl, of e] snd_conv
          fold_try_candidate_inv)
  qed
qed

lemma handle_link_lock_inv: "threshold_inv g \<Longrightarrow> threshold_inv (snd (handle_link_lock g lid ev))"
  by (simp add: handle_link_lock_def Let_def threshold_inv_def)

lemma dispatch_inv:
  "threshold_inv g \<Longrightarrow> decay_threshold g < 1 \<Longrightarrow> threshold_inv (snd (snd (dispatch g et tid ev)))"
  using activate_space_inv [of g tid "timestamp ev" "entity_id ev"]
    handle_link_lock_inv [of g tid ev]
    handle_link_activity_inv [of g tid "timestamp ev" "entity_id ev"]
  by (simp add: dispatch_def case_prod_beta)

lemma totals_applied_inv: "threshold_inv g \<Longrightarrow> threshold_inv (totals_applied g)"
  by (simp add: threshold_inv_def totals_applied_frame score_of_totals_applied)

lemma dispatched_inv:
  assumes "engine_wf g" "threshold_inv g" "decay_threshold g < 1"
  shows "threshold_inv (dispatched g et tid ev)"
proof -
  from assms have "threshold_inv (apply_decay (timestamp ev) g)"
    by (simp add: apply_decay_inv engine_wf_def)
  from dispatch_inv [OF this, of et tid ev] assms(3)
  show ?thesis
    by (simp add: dispatched_def Let_def threshold_inv_def apply_decay_frame)
qed

lemma process_event_inv:
  assumes "engine_wf g" "threshold_inv g" "decay_threshold g < 1"
  shows "\<exists>u g'. process_event g ev = Inr (u, g') \<and> threshold_inv g'"
proof (cases "map_of (entity_index g) (entity_id ev)")
  case None
  with assms show ?thesis
    by (simp add: process_event_unknown apply_decay_inv engine_wf_def)
next
  case (Some p)
  obtain et tid where p: "p = (et, tid)" by (cases p)
  show ?thesis
  proof (cases "short_pulse ev")
    case True
    with Some p assms show ?thesis
      by (simp add: process_event_short apply_decay_inv engine_wf_def)
  next
    case False
    with Some p assms show ?thesis
      by (simp add: process_event_dispatched totals_applied_inv dispatched_inv)
  qed
qed


lemma set_space_inclusion_inv:
  assumes "engine_wf g" "threshold_inv g"
  shows "\<exists>g'. set_space_inclusion g sid incl = Inr g' \<and> threshold_inv g'"
proof (cases "map_of (spaces g) sid")
  case None
  with assms show ?thesis by (simp add: set_space_inclusion_def)
next
  case (Some sp)
  define g1 where
    "g1 = g\<lparr>spaces := AList.update sid (sp\<lparr>include_in_total := incl\<rparr>) (spaces g)\<rparr>"
  from Some have "sid \<in> set (map fst (spaces g))"
    by (metis map_of_eq_None_iff option.distinct(1) set_map)
  then have k: "map fst (spaces g1) = map fst (spaces g)"
    by (simp add: g1_def keys_update_present)
  with assms(1) have wf: "engine_wf g1"
    by (simp add: engine_wf_def) (simp add: g1_def)
  have "threshold_inv g1"
  proof (rule threshold_invI)
    fix s assume "s \<in> fst ` set (spaces g1)"
    then have "s \<in> fst ` set (spaces g)" using k by (metis set_map)
    from threshold_invD [OF assms(2) this]
    show "map_of (occupied (state g1)) s = Some (score_of (state g1) s > decay_threshold g1)"
      by (simp add: g1_def)
  qed
  then have "threshold_inv (totals_applied g1)" by (rule totals_applied_inv)
  with Some recalculate_totals_wf [OF wf] show ?thesis
    by (simp add: set_space_inclusion_def g1_def)
qed

lemma map_of_const_map:
  "map_of (map (\<lambda>(k, _). (k, c)) xs) k = (if k \<in> fst ` set xs then Some c else None)"
  by (induction xs) auto

lemma reset_state_inv: "0 \<le> decay_threshold g \<Longrightarrow> threshold_inv (reset_state g)"
  by (rule threshold_invI) (simp add: reset_state_def score_of_def map_of_const_map)

lemma reset_state_wf: "distinct (map fst (spaces g)) \<Longrightarrow> engine_wf (reset_state g)"
  by (simp add: engine_wf_def state_keys_def reset_state_def case_prod_beta comp_def)

text \<open>The adjacency and the entity index that \<^verbatim>\<open>set_model\<close> builds.\<close>

definition build_tables ::
  "space list \<Rightarrow> link list
   \<Rightarrow> (string \<times> string list) list \<times> (string \<times> (string \<times> string)) list" where
  "build_tables sps lks =
     fold register_link (map snd (index_by link_id lks))
       (map (\<lambda>(sid, _). (sid, [])) (index_by space_id sps),
        fold register_space (map snd (index_by space_id sps)) [])"

lemma set_model_result:
  "set_model g sps lks =
     Inr (reset_state (g\<lparr>spaces := index_by space_id sps, links := index_by link_id lks,
            adjacency := fst (build_tables sps lks),
            entity_index := snd (build_tables sps lks)\<rparr>))"
  by (simp add: set_model_def Let_def ensure_unique_ids_index_by case_prod_beta
      build_tables_def)

lemma set_model_wf: "set_model g sps lks = Inr g' \<Longrightarrow> engine_wf g'"
  by (auto simp: set_model_result reset_state_wf distinct_index_by)

lemma set_model_inv:
  "0 \<le> decay_threshold g \<Longrightarrow> \<exists>g'. set_model g sps lks = Inr g' \<and> threshold_inv g'"
  by (simp add: set_model_result reset_state_inv)

text \<open>
  C4 (amended). With a threshold in \<open>[0, 1)\<close>, as the default 0.2 is, every transition
  that is not forced keeps the equivalence: if it holds for every space of a well-formed
  engine before a call of \<^verbatim>\<open>process_event\<close> or \<^verbatim>\<open>set_space_inclusion\<close>, the call returns and
  it holds after; and it holds after every \<^verbatim>\<open>set_model\<close>. These calls do not restore it
  where a forced update has broken it.
\<close>

theorem threshold_invariant_preserved:
  assumes "engine_wf g" "threshold_inv g" "0 \<le> decay_threshold g" "decay_threshold g < 1"
  shows "(\<exists>u g'. process_event g ev = Inr (u, g') \<and> threshold_inv g')
       \<and> (\<exists>g'. set_space_inclusion g sid incl = Inr g' \<and> threshold_inv g')
       \<and> (\<exists>g'. set_model g sps lks = Inr g' \<and> threshold_inv g')"
  using process_event_inv [OF assms(1,2,4)] set_space_inclusion_inv [OF assms(1,2)]
    set_model_inv [OF assms(3)]
  by blast

lemma demo_engine_inv: "threshold_inv demo_engine"
  by (simp add: threshold_inv_def score_of_def demo_engine_def demo_state_def const_defs)

theorem threshold_invariant_preserved_witness:
  "engine_wf demo_engine \<and> threshold_inv demo_engine
   \<and> decay_threshold demo_engine = 2 / 10
   \<and> (\<exists>u g'. process_event demo_engine (sensor_event ''living_motion'' ''on'' 0) = Inr (u, g')
          \<and> threshold_inv g')"
proof -
  have t: "decay_threshold demo_engine = 2 / 10"
    by (simp add: demo_engine_def const_defs)
  then have "0 \<le> decay_threshold demo_engine" "decay_threshold demo_engine < 1" by simp_all
  from threshold_invariant_preserved [OF demo_engine_wf demo_engine_inv this,
      of "sensor_event ''living_motion'' ''on'' 0"]
    demo_engine_wf demo_engine_inv t
  show ?thesis by blast
qed

text \<open>
  C4 as stated fails: after \<^verbatim>\<open>force_space_state("kitchen", True, 0.0)\<close> the next
  \<^verbatim>\<open>process_event\<close> leaves the kitchen occupied with score 0, since a decay pass only
  re-derives \<open>occupied\<close> for a score it lowers.
\<close>

theorem forced_occupancy_survives_counterexample:
  "\<exists>u1 g1 u2 g2.
     force_space_state demo_engine 0 ''kitchen'' True (Some 0) ATTR_REASON_FORCED = Inr (u1, g1)
     \<and> process_event g1 (sensor_event ''living_motion'' ''off'' 1) = Inr (u2, g2)
     \<and> decay_threshold g2 = 2 / 10
     \<and> map_of (occupied (state g2)) ''kitchen'' = Some True
     \<and> score_of (state g2) ''kitchen'' = 0
     \<and> \<not> threshold_inv g2"
  by (simp add: engine_eval threshold_inv_def demo_defs sensor_event_def lower_literals
      const_defs reason_defs)

section \<open>The entity index\<close>

text \<open>
  The keys of the index that \<^verbatim>\<open>set_model\<close> builds: the motion and presence entities of
  the spaces, and the entities of the links whose two endpoints are spaces.
\<close>

lemma set_sorted_unique_from:
  "set (sorted_unique_from seen result items) = set result \<union> {x \<in> set items. x \<notin> seen}"
  by (induction items arbitrary: seen result) auto

lemma set_sorted_unique: "set (sorted_unique items) = set items"
  by (simp add: sorted_unique_def set_sorted_unique_from)

lemma keys_fold_update:
  "fst ` set (fold (\<lambda>e. AList.update e v) es idx) = fst ` set idx \<union> set es"
  by (induction es arbitrary: idx) (auto simp: dom_update)

lemma keys_index_entities:
  "fst ` set (index_entities kind target es idx) = fst ` set idx \<union> set es"
  by (simp add: index_entities_def keys_fold_update set_sorted_unique)

definition space_entities :: "space \<Rightarrow> string set" where
  "space_entities sp = set (space_motion_entities sp @ presence_entities sp)"

definition link_entities :: "link \<Rightarrow> string set" where
  "link_entities lk =
     set (link_motion_entities lk @ contact_entities lk @ lock_entities lk)"

definition endpoints_known :: "link \<Rightarrow> (string \<times> 'v) list \<Rightarrow> bool" where
  "endpoints_known lk d \<longleftrightarrow> has_key (from_space lk) d \<and> has_key (to_space lk) d"

lemma keys_register_space:
  "fst ` set (register_space sp idx) = fst ` set idx \<union> space_entities sp"
  by (simp add: register_space_def keys_index_entities space_entities_def)

lemma keys_fold_register_space:
  "fst ` set (fold register_space sps idx) = fst ` set idx \<union> (\<Union>sp \<in> set sps. space_entities sp)"
  by (induction sps arbitrary: idx) (auto simp: keys_register_space)

lemma register_link_dangling:
  "\<not> endpoints_known lk adj \<Longrightarrow> register_link lk (adj, idx) = (adj, idx)"
  by (auto simp: register_link_def endpoints_known_def)

lemma register_link_keys:
  "map fst (fst (register_link lk (adj, idx))) = map fst adj"
  "fst ` set (snd (register_link lk (adj, idx)))
     = fst ` set idx \<union> (if endpoints_known lk adj then link_entities lk else {})"
proof -
  have m: "map fst (AList.map_entry k f xs) = map fst xs" for k f and xs :: "(string \<times> string list) list"
    by (induction xs) auto
  show "map fst (fst (register_link lk (adj, idx))) = map fst adj"
    by (simp add: register_link_def Let_def m)
  show "fst ` set (snd (register_link lk (adj, idx)))
     = fst ` set idx \<union> (if endpoints_known lk adj then link_entities lk else {})"
    by (auto simp: register_link_def Let_def endpoints_known_def keys_index_entities
        link_entities_def)
qed

lemma fold_register_link_keys:
  "map fst (fst (fold register_link lks (adj, idx))) = map fst adj
   \<and> fst ` set (snd (fold register_link lks (adj, idx)))
     = fst ` set idx \<union> (\<Union>lk \<in> {lk \<in> set lks. endpoints_known lk adj}. link_entities lk)"
proof (induction lks arbitrary: adj idx)
  case Nil
  then show ?case by simp
next
  case (Cons lk lks)
  obtain adj1 idx1 where r: "register_link lk (adj, idx) = (adj1, idx1)"
    by (cases "register_link lk (adj, idx)")
  from register_link_keys [of lk adj idx] r
  have k: "map fst adj1 = map fst adj"
    "fst ` set idx1 = fst ` set idx \<union> (if endpoints_known lk adj then link_entities lk else {})"
    by simp_all
  from k(1) have e: "endpoints_known l adj1 = endpoints_known l adj" for l
    by (simp add: endpoints_known_def has_key_def)
  from Cons.IH [of adj1 idx1] show ?case
    by (auto simp: r k e)
qed


lemma entity_index_keys:
  assumes "set_model g0 sps lks = Inr g"
  shows "fst ` set (entity_index g)
     = (\<Union>sp \<in> snd ` set (spaces g). space_entities sp)
       \<union> (\<Union>lk \<in> {lk \<in> snd ` set (links g). endpoints_known lk (spaces g)}. link_entities lk)"
proof -
  let ?adj0 = "map (\<lambda>(sid, _). (sid, [])) (index_by space_id sps) :: (string \<times> string list) list"
  from assms have g: "spaces g = index_by space_id sps" "links g = index_by link_id lks"
    "entity_index g = snd (build_tables sps lks)"
    by (auto simp: set_model_result reset_state_def)
  have "map fst ?adj0 = map fst (index_by space_id sps)"
    by (simp add: case_prod_beta comp_def)
  then have e: "endpoints_known l ?adj0 = endpoints_known l (index_by space_id sps)" for l
    by (simp add: endpoints_known_def has_key_def)
  show ?thesis
    unfolding g build_tables_def
    using fold_register_link_keys [of "map snd (index_by link_id lks)" ?adj0
        "fold register_space (map snd (index_by space_id sps)) []"]
    by (simp add: keys_fold_register_space e)
qed

lemma unlisted_entity_unknown:
  assumes "set_model g0 sps lks = Inr g"
    and "\<forall>sp \<in> snd ` set (spaces g). e \<notin> space_entities sp"
    and "\<forall>lk \<in> snd ` set (links g). endpoints_known lk (spaces g) \<longrightarrow> e \<notin> link_entities lk"
  shows "map_of (entity_index g) e = None"
proof -
  from assms(2,3) have "e \<notin> fst ` set (entity_index g)"
    unfolding entity_index_keys [OF assms(1)] by auto
  then show ?thesis by (simp add: map_of_eq_None_iff)
qed

text \<open>
  C10 (amended). A link with an endpoint that is not a space registers nothing. After
  \<^verbatim>\<open>set_model\<close>, an entity that no space lists and no link with two known endpoints
  lists is absent from the index, and \<^verbatim>\<open>process_event\<close> for it runs the decay pass only:
  it returns no changed space, the reason decay, and the engine the decay pass leaves.
\<close>

theorem dangling_link_entity_unknown:
  assumes "set_model g0 sps lks = Inr g"
    and "\<forall>sp \<in> snd ` set (spaces g). e \<notin> space_entities sp"
    and "\<forall>lk \<in> snd ` set (links g). endpoints_known lk (spaces g) \<longrightarrow> e \<notin> link_entities lk"
    and "entity_id ev = e"
  shows "map_of (entity_index g) e = None
     \<and> (\<exists>u. process_event g ev = Inr (u, apply_decay (timestamp ev) g)
           \<and> changed u = [] \<and> reason u = ATTR_REASON_DECAY
           \<and> upd_state u = state (apply_decay (timestamp ev) g))
     \<and> (\<forall>lk adj idx. \<not> endpoints_known lk adj \<longrightarrow> register_link lk (adj, idx) = (adj, idx))"
  using unlisted_entity_unknown [OF assms(1-3)] assms(4)
  by (simp add: process_event_unknown make_update_def register_link_dangling)

definition garage_door :: link where
  "garage_door = \<lparr>link_id = ''garage_door'', link_name = ''Garage door'',
     from_space = ''living'', to_space = ''garage'',
     link_motion_entities = [''garage_motion'', ''living_motion''], contact_entities = [],
     lock_entities = [''garage_lock''], traversal_latency_s = 8\<rparr>"

definition with_garage :: engine where
  "with_garage = demo_engine\<lparr>links := [(''door'', living_kitchen), (''garage_door'', garage_door)]\<rparr>"

lemma with_garage_init:
  "set_model (empty_engine DEFAULT_DECAY_THRESHOLD) [living, kitchen] [living_kitchen, garage_door]
     = Inr with_garage"
  by (simp add: set_model_def index_by_def ensure_unique_ids_def
      empty_engine_def reset_state_def register_space_def register_link_def
      index_entities_def sorted_unique_def has_key_def set_add_def demo_defs with_garage_def
      garage_door_def)

theorem dangling_link_entity_unknown_witness:
  "\<not> endpoints_known garage_door (spaces with_garage)
   \<and> ''garage_motion'' \<in> link_entities garage_door
   \<and> map_of (entity_index with_garage) ''garage_motion'' = None
   \<and> (\<exists>u. process_event with_garage (sensor_event ''garage_motion'' ''on'' 3)
             = Inr (u, apply_decay 3 with_garage)
          \<and> changed u = [] \<and> reason u = ''decay'')"
proof -
  have a: "\<forall>sp \<in> snd ` set (spaces with_garage). ''garage_motion'' \<notin> space_entities sp"
    by (simp add: with_garage_def demo_defs space_entities_def)
  have b: "\<forall>lk \<in> snd ` set (links with_garage). endpoints_known lk (spaces with_garage)
      \<longrightarrow> ''garage_motion'' \<notin> link_entities lk"
    by (simp add: with_garage_def demo_defs link_entities_def endpoints_known_def has_key_def
        garage_door_def)
  have c: "entity_id (sensor_event ''garage_motion'' ''on'' 3) = ''garage_motion''"
    "timestamp (sensor_event ''garage_motion'' ''on'' 3) = 3"
    by (simp_all add: sensor_event_def)
  have d: "\<not> endpoints_known garage_door (spaces with_garage)"
    "''garage_motion'' \<in> link_entities garage_door"
    by (simp_all add: with_garage_def demo_defs link_entities_def endpoints_known_def has_key_def
        garage_door_def)
  from dangling_link_entity_unknown [OF with_garage_init a b c(1)] d show ?thesis
    by (auto simp: c(2) ATTR_REASON_DECAY_def)
qed

text \<open>
  C10 as stated fails for an entity that a link with an unknown endpoint shares with a
  space: the garage door leads to no space, yet its entity \<open>living_motion\<close> is indexed,
  as the living room's sensor, and an event for it activates the living room.
\<close>

theorem shared_entity_still_indexed_counterexample:
  "\<not> endpoints_known garage_door (spaces with_garage)
   \<and> ''living_motion'' \<in> link_entities garage_door
   \<and> map_of (entity_index with_garage) ''living_motion'' = Some (''space'', ''living'')
   \<and> (\<exists>u g'. process_event with_garage (sensor_event ''living_motion'' ''on'' 3) = Inr (u, g')
          \<and> changed u = [''living''] \<and> reason u = ''sensor'')"
  by (simp add: engine_eval with_garage_def demo_defs link_entities_def endpoints_known_def
      garage_door_def sensor_event_def lower_literals const_defs reason_defs)

section \<open>Cluster counting counts connected components\<close>

text \<open>
  One pass over the neighbours of a node, read on sets: the neighbours that still remain
  are taken out of \<open>remaining\<close>, queued and marked visited. Nothing visited remains, so
  the test \<^verbatim>\<open>neighbour in visited\<close> of the source never decides.
\<close>

lemma fold_visit_sets:
  assumes "fold visit ns (v, r, q) = (v', r', q')" "v \<inter> set r = {}" "distinct r"
  shows "set r' = set r - set ns \<and> set q' = set q \<union> (set ns \<inter> set r)
       \<and> v' = v \<union> (set ns \<inter> set r) \<and> v' \<inter> set r' = {} \<and> distinct r'"
  using assms
proof (induction ns arbitrary: v r q)
  case Nil
  then show ?case by simp
next
  case (Cons n ns)
  show ?case
  proof (cases "n \<in> v \<or> n \<notin> set r")
    case True
    with Cons.prems(2) have nr: "n \<notin> set r" by auto
    from True Cons.prems have "fold visit ns (v, r, q) = (v', r', q')" by simp
    from Cons.IH [OF this Cons.prems(2,3)] nr show ?thesis by auto
  next
    case False
    with Cons.prems have f: "fold visit ns (insert n v, removeAll n r, q @ [n]) = (v', r', q')"
      by simp
    from Cons.prems(2) have d: "insert n v \<inter> set (removeAll n r) = {}" by auto
    from Cons.prems(3) have dr: "distinct (removeAll n r)" by (simp add: distinct_removeAll)
    from Cons.IH [OF f d dr] False show ?thesis by auto
  qed
qed

text \<open>
  The invariant of the inner loop while it collects the cluster \<open>C\<close> out of the nodes
  \<open>R0\<close> that remained when the cluster's first node was taken: what has left \<open>R0\<close> lies in
  \<open>C\<close>, and a node that has left and is no longer queued has no edge into what remains.
\<close>

definition bfs_inv ::
  "(string \<times> string) set \<Rightarrow> string set \<Rightarrow> string set
   \<Rightarrow> string set \<Rightarrow> string list \<Rightarrow> string list \<Rightarrow> bool" where
  "bfs_inv E R0 C v r q \<longleftrightarrow>
     v \<inter> set r = {} \<and> distinct r \<and> set q \<subseteq> C \<and> set q \<inter> set r = {} \<and> set r \<subseteq> R0
     \<and> R0 - set r \<subseteq> C
     \<and> (\<forall>a \<in> R0 - set r - set q. \<forall>b. (a, b) \<in> E \<longrightarrow> b \<notin> set r)"

lemma bfs_invariant:
  "bfs_inv E R0 C v r q \<Longrightarrow> bfs adj v r q = (v', r')
   \<Longrightarrow> (\<forall>a b. a \<in> C \<longrightarrow> b \<in> R0 \<longrightarrow> b \<in> set (neighbours adj a) \<longrightarrow> (a, b) \<in> E)
   \<Longrightarrow> (\<forall>a b. (a, b) \<in> E \<longrightarrow> b \<in> set (neighbours adj a))
   \<Longrightarrow> (\<forall>a b. a \<in> C \<longrightarrow> (a, b) \<in> E \<longrightarrow> b \<in> C)
   \<Longrightarrow> bfs_inv E R0 C v' r' []"
proof (induction adj v r q rule: bfs.induct)
  case (1 adj visited remaining)
  then show ?case by (simp add: bfs.simps)
next
  case (2 adj visited remaining node queue)
  note edges = "2.prems"(3) [rule_format]
  note sub = "2.prems"(4) [rule_format]
  note closed = "2.prems"(5) [rule_format]
  obtain v1 r1 q1 where f: "fold visit (neighbours adj node) (visited, remaining, queue) = (v1, r1, q1)"
    by (cases "fold visit (neighbours adj node) (visited, remaining, queue)") auto
  from "2.prems"(1) have i: "visited \<inter> set remaining = {}" "distinct remaining"
    "set (node # queue) \<subseteq> C" "set (node # queue) \<inter> set remaining = {}" "set remaining \<subseteq> R0"
    "R0 - set remaining \<subseteq> C"
    "\<forall>a \<in> R0 - set remaining - set (node # queue). \<forall>b. (a, b) \<in> E \<longrightarrow> b \<notin> set remaining"
    by (simp_all add: bfs_inv_def)
  note fv = fold_visit_sets [OF f i(1,2)]
  have s: "set r1 = set remaining - set (neighbours adj node)"
    "set q1 = set queue \<union> (set (neighbours adj node) \<inter> set remaining)"
    "v1 \<inter> set r1 = {}" "distinct r1"
    using fv by blast+
  have inv1: "bfs_inv E R0 C v1 r1 q1"
    unfolding bfs_inv_def
  proof (intro conjI ballI allI impI)
    show "v1 \<inter> set r1 = {}" by (rule s(3))
    show "distinct r1" by (rule s(4))
    show "set q1 \<subseteq> C"
    proof
      fix x assume "x \<in> set q1"
      with s(2) have "x \<in> set queue \<or> (x \<in> set (neighbours adj node) \<and> x \<in> set remaining)"
        by auto
      then show "x \<in> C"
      proof
        assume "x \<in> set queue" with i(3) show ?thesis by auto
      next
        assume x: "x \<in> set (neighbours adj node) \<and> x \<in> set remaining"
        from i(3) have "node \<in> C" by simp
        moreover from x i(5) have "x \<in> R0" by auto
        ultimately have "(node, x) \<in> E" using x by (auto intro: edges)
        with \<open>node \<in> C\<close> show ?thesis by (rule closed)
      qed
    qed
    show "set q1 \<inter> set r1 = {}" using s(1,2) i(4) by auto
    show "set r1 \<subseteq> R0" using s(1) i(5) by auto
    show "R0 - set r1 \<subseteq> C"
    proof
      fix x assume x: "x \<in> R0 - set r1"
      show "x \<in> C"
      proof (cases "x \<in> set remaining")
        case False
        with x i(6) show ?thesis by auto
      next
        case True
        with x s(1) have xn: "x \<in> set (neighbours adj node)" by auto
        from i(3) have "node \<in> C" by simp
        moreover from x have "x \<in> R0" by simp
        ultimately have "(node, x) \<in> E" using xn by (auto intro: edges)
        with \<open>node \<in> C\<close> show ?thesis by (rule closed)
      qed
    qed
  next
    fix a b assume a: "a \<in> R0 - set r1 - set q1" and e: "(a, b) \<in> E"
    show "b \<notin> set r1"
    proof (cases "a = node")
      case True
      with e have "b \<in> set (neighbours adj node)" by (auto dest: sub)
      with s(1) show ?thesis by simp
    next
      case False
      show ?thesis
      proof (cases "a \<in> set remaining")
        case True
        with a s(1) have "a \<in> set (neighbours adj node)" by auto
        with True s(2) have "a \<in> set q1" by simp
        with a show ?thesis by simp
      next
        case nr: False
        from a s(2) have "a \<notin> set queue" by auto
        with False nr a have "a \<in> R0 - set remaining - set (node # queue)" by simp
        with i(7) e have "b \<notin> set remaining" by blast
        with s(1) show ?thesis by simp
      qed
    qed
  qed
  have b: "bfs adj v1 r1 q1 = (v', r')"
    using "2.prems"(2) by (simp only: bfs.simps f prod.case)
  show ?case
    by (rule "2.IH" [OF f [symmetric] refl inv1 b "2.prems"(3) "2.prems"(4) "2.prems"(5)])
qed

definition adjacency_symmetric :: "(string \<times> string list) list \<Rightarrow> bool" where
  "adjacency_symmetric adj \<longleftrightarrow>
     (\<forall>a b. b \<in> set (neighbours adj a) \<longrightarrow> a \<in> set (neighbours adj b))"

text \<open>
  The graph on a set \<open>S\<close> of spaces: an edge joins two members of \<open>S\<close> that are adjacent.
  A path in it has all its nodes in \<open>S\<close>. \<open>cluster_of\<close> is the connected component of a
  node, \<open>clusters\<close> the set of the components of \<open>S\<close>.
\<close>

definition linked :: "(string \<times> string list) list \<Rightarrow> string set \<Rightarrow> (string \<times> string) set" where
  "linked adj S = {(a, b). a \<in> S \<and> b \<in> S \<and> b \<in> set (neighbours adj a)}"

definition cluster_of :: "(string \<times> string list) list \<Rightarrow> string set \<Rightarrow> string \<Rightarrow> string set" where
  "cluster_of adj S a = (linked adj S)\<^sup>* `` {a}"

definition clusters :: "(string \<times> string list) list \<Rightarrow> string set \<Rightarrow> string set set" where
  "clusters adj S = cluster_of adj S ` S"

lemma linked_sym: "adjacency_symmetric adj \<Longrightarrow> sym (linked adj S)"
  by (auto simp: adjacency_symmetric_def linked_def sym_def)

lemma linked_rtrancl_in: "(a, b) \<in> (linked adj S)\<^sup>* \<Longrightarrow> a \<in> S \<Longrightarrow> b \<in> S"
  by (induction rule: rtrancl_induct) (auto simp: linked_def)

lemma cluster_of_self: "a \<in> cluster_of adj S a"
  by (simp add: cluster_of_def)

lemma cluster_of_subset: "a \<in> S \<Longrightarrow> cluster_of adj S a \<subseteq> S"
  by (auto simp: cluster_of_def dest: linked_rtrancl_in)

lemma cluster_of_step: "a \<in> cluster_of adj S c \<Longrightarrow> (a, b) \<in> linked adj S \<Longrightarrow> b \<in> cluster_of adj S c"
  by (auto simp: cluster_of_def intro: rtrancl_into_rtrancl)

lemma cluster_of_eq:
  assumes "adjacency_symmetric adj" "b \<in> cluster_of adj S a"
  shows "cluster_of adj S b = cluster_of adj S a"
proof -
  from assms(2) have ab: "(a, b) \<in> (linked adj S)\<^sup>*" by (simp add: cluster_of_def)
  from linked_sym [OF assms(1)] have "sym ((linked adj S)\<^sup>*)" by (rule sym_rtrancl)
  with ab have ba: "(b, a) \<in> (linked adj S)\<^sup>*" by (auto dest: symD)
  show ?thesis
    unfolding cluster_of_def using ab ba by (auto intro: rtrancl_trans)
qed

lemma same_cluster_iff_path:
  assumes "adjacency_symmetric adj"
  shows "cluster_of adj S a = cluster_of adj S b \<longleftrightarrow> (a, b) \<in> (linked adj S)\<^sup>*"
proof
  assume "cluster_of adj S a = cluster_of adj S b"
  with cluster_of_self [of b adj S] have "b \<in> cluster_of adj S a" by simp
  then show "(a, b) \<in> (linked adj S)\<^sup>*" by (simp add: cluster_of_def)
next
  assume "(a, b) \<in> (linked adj S)\<^sup>*"
  then have "b \<in> cluster_of adj S a" by (simp add: cluster_of_def)
  from cluster_of_eq [OF assms this] show "cluster_of adj S a = cluster_of adj S b" by simp
qed

lemma fold_visit_subset:
  "fold visit ns (v, r, q) = (v', r', q') \<Longrightarrow> set r' \<subseteq> set r"
proof (induction ns arbitrary: v r q)
  case Nil
  then show ?case by simp
next
  case (Cons n ns)
  show ?case
  proof (cases "n \<in> v \<or> n \<notin> set r")
    case True
    with Cons show ?thesis by simp
  next
    case False
    with Cons.prems
    have "fold visit ns (insert n v, removeAll n r, q @ [n]) = (v', r', q')"
      by simp
    from Cons.IH [OF this] show ?thesis by auto
  qed
qed

lemma bfs_subset: "bfs adj v r q = (v', r') \<Longrightarrow> set r' \<subseteq> set r"
proof (induction adj v r q rule: bfs.induct)
  case (1 adj visited remaining)
  then show ?case by (simp add: bfs.simps)
next
  case (2 adj visited remaining node queue)
  obtain v1 r1 q1 where f: "fold visit (neighbours adj node) (visited, remaining, queue) = (v1, r1, q1)"
    by (cases "fold visit (neighbours adj node) (visited, remaining, queue)") auto
  have b: "bfs adj v1 r1 q1 = (v', r')"
    using "2.prems" by (simp only: bfs.simps f prod.case)
  from "2.IH" [OF f [symmetric] refl b] fold_visit_subset [OF f] show ?case by blast
qed

text \<open>
  The inner loop, started at the first node of what remains, takes exactly the cluster of
  that node out of \<open>remaining\<close>.
\<close>

lemma bfs_inv_end:
  "bfs_inv E R0 C v r [] \<Longrightarrow>
     v \<inter> set r = {} \<and> distinct r \<and> R0 - set r \<subseteq> C
     \<and> (\<forall>a \<in> R0 - set r. \<forall>b. (a, b) \<in> E \<longrightarrow> b \<notin> set r)"
  unfolding bfs_inv_def by simp

lemma bfs_removes_cluster:
  assumes "distinct (c # R)" "set (c # R) \<subseteq> S"
    and closedR: "\<forall>a b. (a, b) \<in> linked adj S \<longrightarrow> a \<in> set (c # R) \<longrightarrow> b \<in> set (c # R)"
    and "v \<inter> set (c # R) = {}"
    and b: "bfs adj (insert c v) R [c] = (v', r')"
  shows "set r' = set R - cluster_of adj S c \<and> distinct r' \<and> v' \<inter> set r' = {}"
proof -
  let ?E = "linked adj S" and ?R0 = "set (c # R)" and ?C = "cluster_of adj S c"
  from assms(2) have cS: "c \<in> S" by simp
  have inv0: "bfs_inv ?E ?R0 ?C (insert c v) R [c]"
    unfolding bfs_inv_def
  proof (intro conjI)
    show "insert c v \<inter> set R = {}" using assms(1,4) by auto
    show "distinct R" using assms(1) by simp
    show "set [c] \<subseteq> ?C" by (simp add: cluster_of_self)
    show "set [c] \<inter> set R = {}" using assms(1) by simp
    show "set R \<subseteq> ?R0" by auto
    show "?R0 - set R \<subseteq> ?C" by (auto simp: cluster_of_self)
    show "\<forall>a \<in> ?R0 - set R - set [c]. \<forall>b. (a, b) \<in> ?E \<longrightarrow> b \<notin> set R" by auto
  qed
  have CS: "?C \<subseteq> S" by (rule cluster_of_subset [OF cS])
  have e1: "\<forall>a b. a \<in> ?C \<longrightarrow> b \<in> ?R0 \<longrightarrow> b \<in> set (neighbours adj a) \<longrightarrow> (a, b) \<in> ?E"
  proof (intro allI impI)
    fix a b assume "a \<in> ?C" "b \<in> ?R0" "b \<in> set (neighbours adj a)"
    with CS assms(2) have "a \<in> S" "b \<in> S" by blast+
    with \<open>b \<in> set (neighbours adj a)\<close> show "(a, b) \<in> ?E" by (simp add: linked_def)
  qed
  have e2: "\<forall>a b. (a, b) \<in> ?E \<longrightarrow> b \<in> set (neighbours adj a)"
    by (simp add: linked_def)
  have e3: "\<forall>a b. a \<in> ?C \<longrightarrow> (a, b) \<in> ?E \<longrightarrow> b \<in> ?C"
    by (blast intro: cluster_of_step)
  note fin = bfs_inv_end [OF bfs_invariant [OF inv0 b e1 e2 e3]]
  have inv: "v' \<inter> set r' = {}" "distinct r'" "?R0 - set r' \<subseteq> ?C"
    "\<forall>a \<in> ?R0 - set r'. \<forall>b. (a, b) \<in> ?E \<longrightarrow> b \<notin> set r'"
    using fin by blast+
  from bfs_subset [OF b] have sub: "set r' \<subseteq> set R" .
  with assms(1) have cX: "c \<in> ?R0 - set r'" by auto
  have "?C \<subseteq> ?R0 - set r'"
  proof
    fix x assume "x \<in> ?C"
    then have "(c, x) \<in> ?E\<^sup>*" by (simp add: cluster_of_def)
    then show "x \<in> ?R0 - set r'"
    proof (induction rule: rtrancl_induct)
      case base
      show ?case by (rule cX)
    next
      case (step y z)
      from step.IH have "y \<in> ?R0" by simp
      with closedR step.hyps(2) have "z \<in> ?R0" by blast
      moreover from inv(4) step.IH step.hyps(2) have "z \<notin> set r'" by blast
      ultimately show ?case by simp
    qed
  qed
  with inv(3) have eq: "?R0 - set r' = ?C" by blast
  have "set r' = set R - ?C"
  proof (intro set_eqI iffI)
    fix x assume "x \<in> set r'"
    with sub eq show "x \<in> set R - ?C" by blast
  next
    fix x assume "x \<in> set R - ?C"
    with eq show "x \<in> set r'" by auto
  qed
  with inv(1,2) show ?thesis by blast
qed

lemma clusters_split:
  assumes sym: "adjacency_symmetric adj" and "finite R0" and "c \<in> R0"
  shows "card (cluster_of adj S ` R0) = Suc (card (cluster_of adj S ` (R0 - cluster_of adj S c)))"
proof -
  let ?C = "cluster_of adj S c"
  have "cluster_of adj S ` R0 = insert ?C (cluster_of adj S ` (R0 - ?C))"
  proof (intro set_eqI iffI)
    fix X assume "X \<in> cluster_of adj S ` R0"
    then obtain a where a: "a \<in> R0" "X = cluster_of adj S a" by auto
    show "X \<in> insert ?C (cluster_of adj S ` (R0 - ?C))"
    proof (cases "a \<in> ?C")
      case True
      from cluster_of_eq [OF sym True] a show ?thesis by simp
    next
      case False
      with a show ?thesis by auto
    qed
  next
    fix X assume "X \<in> insert ?C (cluster_of adj S ` (R0 - ?C))"
    with assms(3) show "X \<in> cluster_of adj S ` R0" by auto
  qed
  moreover have "?C \<notin> cluster_of adj S ` (R0 - ?C)"
  proof
    assume "?C \<in> cluster_of adj S ` (R0 - ?C)"
    then obtain a where "a \<notin> ?C" "?C = cluster_of adj S a" by auto
    with cluster_of_self [of a adj S] show False by simp
  qed
  moreover from assms(2) have "finite (cluster_of adj S ` (R0 - ?C))" by simp
  ultimately show ?thesis by simp
qed

text \<open>
  The outer loop adds one per cluster of what remains; \<^verbatim>\<open>_count_clusters\<close> returns the
  number of clusters of the set of its argument, in whatever order the set is listed.
\<close>

lemma count_from_clusters:
  "adjacency_symmetric adj \<Longrightarrow> distinct R \<Longrightarrow> set R \<subseteq> S
   \<Longrightarrow> (\<forall>a b. (a, b) \<in> linked adj S \<longrightarrow> a \<in> set R \<longrightarrow> b \<in> set R)
   \<Longrightarrow> v \<inter> set R = {}
   \<Longrightarrow> count_from adj v R k = k + int (card (cluster_of adj S ` set R))"
proof (induction adj v R k rule: count_from.induct)
  case (1 adj visited clusters)
  then show ?case by (simp add: count_from.simps)
next
  case (2 adj visited current remaining clusters)
  note sym = "2.prems"(1) and closedR = "2.prems"(4)
  let ?C = "cluster_of adj S current"
  obtain v' r' where b: "bfs adj (insert current visited) remaining [current] = (v', r')"
    by (cases "bfs adj (insert current visited) remaining [current]") auto
  from bfs_removes_cluster [OF "2.prems"(2,3) closedR "2.prems"(5) b]
  have r: "set r' = set remaining - ?C" "distinct r'" "v' \<inter> set r' = {}" by blast+
  from r(1) "2.prems"(3) have rS: "set r' \<subseteq> S" by auto
  have closed': "\<forall>a b. (a, b) \<in> linked adj S \<longrightarrow> a \<in> set r' \<longrightarrow> b \<in> set r'"
  proof (intro allI impI)
    fix a b assume e: "(a, b) \<in> linked adj S" and a: "a \<in> set r'"
    from a r(1) have ar: "a \<in> set (current # remaining)" and aC: "a \<notin> ?C" by auto
    from closedR e ar have br: "b \<in> set (current # remaining)" by blast
    have "b \<notin> ?C"
    proof
      assume "b \<in> ?C"
      moreover from linked_sym [OF sym] e have "(b, a) \<in> linked adj S" by (auto dest: symD)
      ultimately have "a \<in> ?C" by (rule cluster_of_step)
      with aC show False by simp
    qed
    with br cluster_of_self [of current adj S] have "b \<in> set remaining - ?C" by auto
    with r(1) show "b \<in> set r'" by simp
  qed
  have ih: "count_from adj v' r' (clusters + 1)
      = clusters + 1 + int (card (cluster_of adj S ` set r'))"
    by (rule "2.IH" [OF b [symmetric] sym r(2) rS closed' r(3)])
  have step: "count_from adj visited (current # remaining) clusters
      = count_from adj v' r' (clusters + 1)"
    by (simp only: count_from.simps b prod.case)
  have "set (current # remaining) - ?C = set r'"
    using r(1) cluster_of_self [of current adj S] by auto
  with clusters_split [OF sym, of "set (current # remaining)" current S]
  have "card (cluster_of adj S ` set (current # remaining))
      = Suc (card (cluster_of adj S ` set r'))"
    by simp
  with ih step show ?case by simp
qed

lemma count_clusters_components:
  assumes "adjacency_symmetric adj"
  shows "count_clusters adj sids = int (card (clusters adj (set sids)))"
proof (cases "sids = []")
  case True
  then show ?thesis by (simp add: count_clusters_def clusters_def)
next
  case False
  have "count_from adj {} (remdups sids) 0
      = 0 + int (card (cluster_of adj (set sids) ` set (remdups sids)))"
    by (rule count_from_clusters [OF assms]) (auto simp: linked_def)
  with False show ?thesis by (simp add: count_clusters_def clusters_def)
qed

section \<open>The total\<close>

text \<open>
  The adjacency that \<^verbatim>\<open>set_model\<close> builds is symmetric: a link adds each endpoint to the
  other's neighbours. No other method writes it.
\<close>

lemma keys_map_entry: "map fst (AList.map_entry k f xs) = map fst xs"
  by (induction xs) auto

lemma neighbours_map_entry:
  assumes "has_key k adj"
  shows "set (neighbours (AList.map_entry k (set_add x) adj) a)
       = (if a = k then insert x (set (neighbours adj a)) else set (neighbours adj a))"
proof -
  from assms have "k \<in> fst ` set adj" by (simp add: has_key_def)
  then have "map_of adj k \<noteq> None" by (simp add: map_of_eq_None_iff)
  then obtain ns where ns: "map_of adj k = Some ns" by (cases "map_of adj k") auto
  show ?thesis
  proof (cases "a = k")
    case True
    then show ?thesis
      by (simp add: neighbours_def map_of_map_entry ns set_add_def insert_absorb)
  next
    case False
    then show ?thesis
      by (simp add: neighbours_def map_of_map_entry)
  qed
qed

lemma register_link_symmetric:
  assumes "adjacency_symmetric adj"
  shows "adjacency_symmetric (fst (register_link lk (adj, idx)))"
proof (cases "has_key (from_space lk) adj \<and> has_key (to_space lk) adj")
  case False
  with assms show ?thesis by (auto simp: register_link_def)
next
  case True
  let ?adj1 = "AList.map_entry (from_space lk) (set_add (to_space lk)) adj"
  let ?adj2 = "AList.map_entry (to_space lk) (set_add (from_space lk)) ?adj1"
  from True have k1: "has_key (from_space lk) adj" and k2: "has_key (to_space lk) ?adj1"
    by (simp_all add: has_key_def keys_map_entry)
  have n: "set (neighbours ?adj2 a)
      = set (neighbours adj a)
        \<union> (if a = from_space lk then {to_space lk} else {})
        \<union> (if a = to_space lk then {from_space lk} else {})" for a
    by (simp add: neighbours_map_entry [OF k2] neighbours_map_entry [OF k1])
  have "adjacency_symmetric ?adj2"
    unfolding adjacency_symmetric_def n
    using assms by (auto simp: adjacency_symmetric_def split: if_splits)
  with True show ?thesis by (simp add: register_link_def Let_def)
qed

lemma fold_register_link_symmetric:
  "adjacency_symmetric adj \<Longrightarrow> adjacency_symmetric (fst (fold register_link lks (adj, idx)))"
proof (induction lks arbitrary: adj idx)
  case Nil
  then show ?case by simp
next
  case (Cons lk lks)
  obtain adj1 idx1 where r: "register_link lk (adj, idx) = (adj1, idx1)"
    by (cases "register_link lk (adj, idx)")
  from register_link_symmetric [OF Cons.prems, of lk idx] r
  have "adjacency_symmetric adj1" by simp
  from Cons.IH [OF this, of idx1] r show ?case by simp
qed

lemma set_model_adjacency_symmetric:
  assumes "set_model g0 sps lks = Inr g"
  shows "adjacency_symmetric (adjacency g)"
proof -
  let ?adj0 = "map (\<lambda>(sid, _). (sid, [])) (index_by space_id sps) :: (string \<times> string list) list"
  have "neighbours ?adj0 a = []" for a
    by (simp add: neighbours_def map_of_const_map)
  then have "adjacency_symmetric ?adj0" by (simp add: adjacency_symmetric_def)
  from fold_register_link_symmetric [OF this]
  have "adjacency_symmetric (fst (build_tables sps lks))"
    by (simp add: build_tables_def)
  with assms show ?thesis
    by (auto simp: set_model_result reset_state_def)
qed

lemma included_ids_set:
  assumes "engine_wf g"
  shows "set (included_ids g)
     = {sid. map_of (occupied (state g)) sid = Some True
             \<and> (\<exists>sp. map_of (spaces g) sid = Some sp \<and> include_in_total sp)}"
proof -
  from assms have "distinct (map fst (occupied (state g)))"
    by (simp add: engine_wf_def state_keys_def)
  then have "set (occupied_spaces (state g)) = {sid. map_of (occupied (state g)) sid = Some True}"
    by (auto simp: occupied_spaces_def image_iff)
  then show ?thesis by (auto simp: included_ids_def)
qed

lemma clusters_nonempty:
  "finite S \<Longrightarrow> S \<noteq> {} \<Longrightarrow> 1 \<le> card (clusters adj S)"
  by (simp add: clusters_def Suc_le_eq card_gt_0_iff)


text \<open>
  The reading of the graph that does not go through the engine's lookups. An edge is a
  pair \<open>(a, b)\<close> such that \<open>b\<close> is in the set stored under \<open>a\<close> in the adjacency dict; a
  space counts when the dict \<open>occupied\<close> holds \<open>True\<close> for it and its entry in \<open>spaces\<close>
  has \<open>include_in_total\<close>. The component of \<open>a\<close> in a set \<open>S\<close> of spaces is what a path
  of edges reaches from \<open>a\<close> without leaving \<open>S\<close>.
\<close>

definition adjacency_edges :: "(string \<times> string list) list \<Rightarrow> (string \<times> string) set" where
  "adjacency_edges adj = {(a, b). \<exists>ns. (a, ns) \<in> set adj \<and> b \<in> set ns}"

definition counted :: "engine \<Rightarrow> string set" where
  "counted g =
     {sid. (sid, True) \<in> set (occupied (state g))
           \<and> (\<exists>sp. (sid, sp) \<in> set (spaces g) \<and> include_in_total sp)}"

definition component_of :: "(string \<times> string) set \<Rightarrow> string set \<Rightarrow> string \<Rightarrow> string set" where
  "component_of E S a = {b. (a, b) \<in> (E \<inter> S \<times> S)\<^sup>*}"

definition components :: "(string \<times> string) set \<Rightarrow> string set \<Rightarrow> string set set" where
  "components E S = component_of E S ` S"

lemma neighbours_edges:
  "distinct (map fst adj) \<Longrightarrow> b \<in> set (neighbours adj a) \<longleftrightarrow> (a, b) \<in> adjacency_edges adj"
  by (auto simp: neighbours_def adjacency_edges_def split: option.splits)

lemma linked_edges:
  "distinct (map fst adj) \<Longrightarrow> linked adj S = adjacency_edges adj \<inter> S \<times> S"
  by (auto simp: linked_def neighbours_edges)

lemma cluster_of_component:
  "distinct (map fst adj) \<Longrightarrow> cluster_of adj S a = component_of (adjacency_edges adj) S a"
  by (auto simp: cluster_of_def component_of_def linked_edges)

lemma clusters_components:
  "distinct (map fst adj) \<Longrightarrow> clusters adj S = components (adjacency_edges adj) S"
  by (simp add: clusters_def components_def cluster_of_component)

lemma adjacency_symmetric_edges:
  "distinct (map fst adj) \<Longrightarrow> adjacency_symmetric adj \<longleftrightarrow> sym (adjacency_edges adj)"
  by (auto simp: adjacency_symmetric_def neighbours_edges sym_def)

lemma counted_included: "engine_wf g \<Longrightarrow> counted g = set (included_ids g)"
  unfolding included_ids_set counted_def
  by (auto simp: engine_wf_def state_keys_def)

lemma count_clusters_counted:
  assumes "engine_wf g" "distinct (map fst (adjacency g))" "sym (adjacency_edges (adjacency g))"
  shows "count_clusters (adjacency g) (included_ids g)
     = int (card (components (adjacency_edges (adjacency g)) (counted g)))"
  using assms count_clusters_components [of "adjacency g" "included_ids g"]
  by (simp add: adjacency_symmetric_edges clusters_components counted_included)

lemma next_total_components:
  assumes "engine_wf g" "distinct (map fst (adjacency g))" "sym (adjacency_edges (adjacency g))"
  shows "next_total g
     = (if counted g = {} then 0
        else clamp_total (total_estimated (state g))
               (max (int (card (components (adjacency_edges (adjacency g)) (counted g)))) 1))"
  using counted_included [OF assms(1)]
  by (simp add: next_total_def count_clusters_counted [OF assms])

lemma components_nonempty: "finite S \<Longrightarrow> S \<noteq> {} \<Longrightarrow> 1 \<le> card (components E S)"
  by (simp add: components_def Suc_le_eq card_gt_0_iff)

lemma same_component_iff_path:
  assumes "sym E"
  shows "component_of E S a = component_of E S b \<longleftrightarrow> (a, b) \<in> (E \<inter> S \<times> S)\<^sup>*"
proof
  assume eq: "component_of E S a = component_of E S b"
  have "b \<in> component_of E S b" by (simp add: component_of_def)
  with eq have "b \<in> component_of E S a" by simp
  then show "(a, b) \<in> (E \<inter> S \<times> S)\<^sup>*" by (simp add: component_of_def)
next
  assume ab: "(a, b) \<in> (E \<inter> S \<times> S)\<^sup>*"
  from assms have "sym (E \<inter> S \<times> S)" by (auto simp: sym_def)
  then have "sym ((E \<inter> S \<times> S)\<^sup>*)" by (rule sym_rtrancl)
  with ab have ba: "(b, a) \<in> (E \<inter> S \<times> S)\<^sup>*" by (auto dest: symD)
  show "component_of E S a = component_of E S b"
    unfolding component_of_def using ab ba by (auto intro: rtrancl_trans)
qed

lemma totals_applied_counts:
  "space_counts (state (totals_applied g))
     = map (\<lambda>(sid, _). (sid, if (sid, True) \<in> set (occupied (state g)) then 1 else 0)) (spaces g)"
  by (auto simp: totals_applied_def occupied_spaces_def image_iff)

text \<open>
  The adjacency dict has one entry for each space, and \<^verbatim>\<open>set_model\<close> fills it from the
  links whose two endpoints are spaces, in both directions.
\<close>

definition link_edges :: "engine \<Rightarrow> (string \<times> string) set" where
  "link_edges g =
     {(a, b). \<exists>lk \<in> snd ` set (links g). endpoints_known lk (spaces g)
        \<and> ((a = from_space lk \<and> b = to_space lk) \<or> (a = to_space lk \<and> b = from_space lk))}"

lemma edges_map_entry:
  assumes "distinct (map fst adj)" "has_key k adj"
  shows "adjacency_edges (AList.map_entry k (set_add x) adj) = insert (k, x) (adjacency_edges adj)"
proof -
  have d: "distinct (map fst (AList.map_entry k (set_add x) adj))"
    using assms(1) by (simp add: keys_map_entry)
  have n1: "(a, b) \<in> adjacency_edges (AList.map_entry k (set_add x) adj)
      \<longleftrightarrow> b \<in> set (neighbours (AList.map_entry k (set_add x) adj) a)" for a b
    by (rule neighbours_edges [OF d, symmetric])
  have n2: "(a, b) \<in> adjacency_edges adj \<longleftrightarrow> b \<in> set (neighbours adj a)" for a b
    by (rule neighbours_edges [OF assms(1), symmetric])
  have "(a, b) \<in> adjacency_edges (AList.map_entry k (set_add x) adj)
      \<longleftrightarrow> (a, b) \<in> insert (k, x) (adjacency_edges adj)" for a b
    unfolding n1 by (simp add: n2 neighbours_map_entry [OF assms(2)])
  then show ?thesis by auto
qed

lemma register_link_edges:
  assumes "distinct (map fst adj)"
  shows "adjacency_edges (fst (register_link lk (adj, idx)))
     = adjacency_edges adj
       \<union> (if endpoints_known lk adj
          then {(from_space lk, to_space lk), (to_space lk, from_space lk)} else {})"
proof (cases "endpoints_known lk adj")
  case False
  then show ?thesis by (simp add: register_link_dangling)
next
  case True
  let ?adj1 = "AList.map_entry (from_space lk) (set_add (to_space lk)) adj"
  from True have k1: "has_key (from_space lk) adj" and k2: "has_key (to_space lk) ?adj1"
    by (simp_all add: endpoints_known_def has_key_def keys_map_entry)
  have d1: "distinct (map fst ?adj1)" using assms by (simp add: keys_map_entry)
  from True show ?thesis
    by (auto simp: register_link_def Let_def endpoints_known_def
        edges_map_entry [OF d1 k2] edges_map_entry [OF assms k1])
qed

lemma register_link_adjacency_keys:
  "map fst (fst (register_link lk (adj, idx))) = map fst adj"
  by (simp add: register_link_def Let_def keys_map_entry)

lemma fold_register_link_edges:
  "distinct (map fst adj) \<Longrightarrow>
     map fst (fst (fold register_link lks (adj, idx))) = map fst adj
     \<and> adjacency_edges (fst (fold register_link lks (adj, idx)))
       = adjacency_edges adj
         \<union> {(a, b). \<exists>lk \<in> set lks. endpoints_known lk adj
               \<and> ((a = from_space lk \<and> b = to_space lk) \<or> (a = to_space lk \<and> b = from_space lk))}"
proof (induction lks arbitrary: adj idx)
  case Nil
  then show ?case by simp
next
  case (Cons lk lks)
  obtain adj1 idx1 where r: "register_link lk (adj, idx) = (adj1, idx1)"
    by (cases "register_link lk (adj, idx)")
  from register_link_adjacency_keys [of lk adj idx] r
  have k: "map fst adj1 = map fst adj" by simp
  with Cons.prems have d1: "distinct (map fst adj1)" by simp
  from k have e: "endpoints_known l adj1 = endpoints_known l adj" for l
    by (simp add: endpoints_known_def has_key_def)
  from register_link_edges [OF Cons.prems, of lk idx] r
  have e1: "adjacency_edges adj1
     = adjacency_edges adj
       \<union> (if endpoints_known lk adj
          then {(from_space lk, to_space lk), (to_space lk, from_space lk)} else {})"
    by simp
  from Cons.IH [OF d1, of idx1] show ?case
    unfolding fold_simps r k e e1 by auto
qed

lemma set_model_adjacency:
  assumes "set_model g0 sps lks = Inr g"
  shows "map fst (adjacency g) = map fst (spaces g) \<and> adjacency_edges (adjacency g) = link_edges g"
proof -
  let ?sm = "index_by space_id sps"
  let ?adj0 = "map (\<lambda>(sid, _). (sid, [])) ?sm :: (string \<times> string list) list"
  have k0: "map fst ?adj0 = map fst ?sm" by (simp add: comp_def case_prod_beta)
  have d0: "distinct (map fst ?adj0)" unfolding k0 by (rule distinct_index_by)
  have e0: "adjacency_edges ?adj0 = {}" by (auto simp: adjacency_edges_def)
  from k0 have ek: "endpoints_known l ?adj0 = endpoints_known l ?sm" for l
    by (simp add: endpoints_known_def has_key_def)
  from assms have g: "adjacency g = fst (build_tables sps lks)" "spaces g = ?sm"
    "links g = index_by link_id lks"
    by (auto simp: set_model_result reset_state_def)
  from fold_register_link_edges [OF d0, of "map snd (index_by link_id lks)"
      "fold register_space (map snd ?sm) []"]
  show ?thesis
    unfolding g build_tables_def link_edges_def k0 e0 ek by auto
qed

lemma link_edges_sym: "sym (link_edges g)"
  by (auto simp: sym_def link_edges_def)

text \<open>
  C2. On a well-formed engine whose adjacency dict has distinct keys and symmetric
  edges, \<^verbatim>\<open>_recalculate_totals\<close> returns. If no space counts (no space is occupied, or no
  occupied space is included), the total is 0. Otherwise the candidate that is clamped
  against the previous total is the number of components of the counted spaces, floored
  at 1 (and the number is at least 1). Two counted spaces are in the same component
  exactly when a path of adjacency edges joins them whose nodes all count: no component
  runs through an unoccupied or excluded space. The pass writes the counts and the total
  and nothing else.
\<close>

theorem total_counts_clusters:
  assumes "engine_wf g" "distinct (map fst (adjacency g))" "sym (adjacency_edges (adjacency g))"
  shows "\<exists>g'. recalculate_totals g = Inr g'
     \<and> total_estimated (state g')
         = (if counted g = {} then 0
            else clamp_total (total_estimated (state g))
                   (max (int (card (components (adjacency_edges (adjacency g)) (counted g)))) 1))
     \<and> (counted g \<noteq> {} \<longrightarrow>
           1 \<le> card (components (adjacency_edges (adjacency g)) (counted g)))
     \<and> (\<forall>a b. component_of (adjacency_edges (adjacency g)) (counted g) a
                 = component_of (adjacency_edges (adjacency g)) (counted g) b
               \<longleftrightarrow> (a, b) \<in> (adjacency_edges (adjacency g) \<inter> counted g \<times> counted g)\<^sup>*)
     \<and> space_counts (state g')
         = map (\<lambda>(sid, _). (sid, if (sid, True) \<in> set (occupied (state g)) then 1 else 0))
             (spaces g)
     \<and> occupied (state g') = occupied (state g) \<and> scores (state g') = scores (state g)
     \<and> last_event_ts (state g') = last_event_ts (state g)
     \<and> spaces g' = spaces g \<and> adjacency g' = adjacency g"
proof -
  have "finite (counted g)"
    using counted_included [OF assms(1)] by simp
  from components_nonempty [OF this, of "adjacency_edges (adjacency g)"]
  have "counted g \<noteq> {} \<longrightarrow>
      1 \<le> card (components (adjacency_edges (adjacency g)) (counted g))"
    by blast
  then show ?thesis
    using recalculate_totals_wf [OF assms(1)] next_total_components [OF assms]
      same_component_iff_path [OF assms(3)]
    by (simp add: totals_applied_frame totals_applied_counts)
qed

definition hall :: space where
  "hall = \<lparr>space_id = ''hall'', space_name = ''Hall'', include_in_total = True,
     space_motion_entities = [''hall_motion''], presence_entities = [], timeout_s = 60\<rparr>"

definition living_hall :: link where
  "living_hall = \<lparr>link_id = ''living_hall'', link_name = ''Living to hall'',
     from_space = ''living'', to_space = ''hall'', link_motion_entities = [],
     contact_entities = [], lock_entities = [], traversal_latency_s = 8\<rparr>"

definition hall_kitchen :: link where
  "hall_kitchen = \<lparr>link_id = ''hall_kitchen'', link_name = ''Hall to kitchen'',
     from_space = ''hall'', to_space = ''kitchen'', link_motion_entities = [],
     contact_entities = [], lock_entities = [], traversal_latency_s = 8\<rparr>"

text \<open>
  Three rooms in a row after a motion in the living room at time 0 and, before the
  event at hand, a motion in the kitchen at time 1: the hall between them is empty.
\<close>

definition corridor :: engine where
  "corridor =
     \<lparr>decay_threshold = DEFAULT_DECAY_THRESHOLD,
      spaces = [(''living'', living), (''hall'', hall), (''kitchen'', kitchen)],
      links = [(''living_hall'', living_hall), (''hall_kitchen'', hall_kitchen)],
      entity_index = [(''living_motion'', (''space'', ''living'')),
                      (''hall_motion'', (''space'', ''hall'')),
                      (''kitchen_motion'', (''space'', ''kitchen''))],
      adjacency = [(''living'', [''hall'']), (''hall'', [''living'', ''kitchen'']),
                   (''kitchen'', [''hall''])],
      locked_links = {},
      last_link_event = [],
      last_reason = ATTR_REASON_SENSOR,
      state = \<lparr>occupied = [(''living'', True), (''hall'', False), (''kitchen'', True)],
        scores = [(''living'', 59 / 60), (''hall'', 0), (''kitchen'', 1)],
        total_estimated = 1,
        last_event_ts = [(''living'', At 0), (''hall'', NegInf), (''kitchen'', At 1)],
        space_counts = [(''living'', 1), (''hall'', 0), (''kitchen'', 1)]\<rparr>\<rparr>"

lemma corridor_model:
  "\<exists>g. init_engine [living, hall, kitchen] [living_hall, hall_kitchen] DEFAULT_DECAY_THRESHOLD
         = Inr g
       \<and> spaces g = spaces corridor \<and> links g = links corridor
       \<and> adjacency g = adjacency corridor \<and> entity_index g = entity_index corridor"
  by (simp add: init_engine_def set_model_def index_by_def ensure_unique_ids_def
      empty_engine_def reset_state_def register_space_def register_link_def
      index_entities_def sorted_unique_def has_key_def set_add_def demo_defs corridor_def
      hall_def living_hall_def hall_kitchen_def)

text \<open>
  In \<open>corridor\<close> the living room and the kitchen are occupied and the hall between them
  is empty: two clusters. In \<open>corridor_full\<close>, after a motion in the hall at time 2, the
  hall is occupied as well, and the two doors join the three rooms into one cluster.
\<close>

definition corridor_full :: engine where
  "corridor_full = corridor
     \<lparr>state := \<lparr>occupied = [(''living'', True), (''hall'', True), (''kitchen'', True)],
        scores = [(''living'', 58 / 60), (''hall'', 1), (''kitchen'', 89 / 90)],
        total_estimated = 2,
        last_event_ts = [(''living'', At 0), (''hall'', At 2), (''kitchen'', At 1)],
        space_counts = [(''living'', 1), (''hall'', 1), (''kitchen'', 1)]\<rparr>\<rparr>"

lemma adjacency_edges_simps:
  "adjacency_edges [] = {}"
  "adjacency_edges ((a, ns) # adj) = {a} \<times> set ns \<union> adjacency_edges adj"
  by (auto simp: adjacency_edges_def)

lemma corridor_edges:
  "adjacency_edges (adjacency corridor)
     = {(''living'', ''hall''), (''hall'', ''living''), (''hall'', ''kitchen''),
        (''kitchen'', ''hall'')}"
  unfolding corridor_def by (simp add: adjacency_edges_simps) blast

theorem total_counts_clusters_witness:
  "engine_wf corridor \<and> distinct (map fst (adjacency corridor))
   \<and> sym (adjacency_edges (adjacency corridor))
   \<and> counted corridor = {''living'', ''kitchen''}
   \<and> card (components (adjacency_edges (adjacency corridor)) (counted corridor)) = 2
   \<and> (\<exists>g'. recalculate_totals corridor = Inr g' \<and> total_estimated (state g') = 2)
   \<and> engine_wf corridor_full
   \<and> counted corridor_full = {''living'', ''hall'', ''kitchen''}
   \<and> (''living'', ''hall'') \<in> adjacency_edges (adjacency corridor_full)
   \<and> card (components (adjacency_edges (adjacency corridor_full)) (counted corridor_full)) = 1
   \<and> (\<exists>g'. recalculate_totals corridor_full = Inr g' \<and> total_estimated (state g') = 1)"
proof -
  have wf: "engine_wf corridor" "engine_wf corridor_full"
    by (simp_all add: engine_wf_def state_keys_def corridor_def corridor_full_def)
  have d: "distinct (map fst (adjacency corridor))" by (simp add: corridor_def)
  have adj: "adjacency corridor_full = adjacency corridor" by (simp add: corridor_full_def)
  have sym: "sym (adjacency_edges (adjacency corridor))"
    unfolding corridor_edges by (auto simp: sym_def)
  have inc: "included_ids corridor = [''living'', ''kitchen'']"
    "included_ids corridor_full = [''living'', ''hall'', ''kitchen'']"
    by (simp_all add: included_ids_def occupied_spaces_def corridor_def corridor_full_def
        demo_defs hall_def)
  have c: "counted corridor = {''living'', ''kitchen''}"
    "counted corridor_full = {''living'', ''hall'', ''kitchen''}"
    by (simp_all add: counted_included [OF wf(1)] counted_included [OF wf(2)] inc)
  have "count_clusters (adjacency corridor) [''living'', ''kitchen''] = 2"
    "count_clusters (adjacency corridor) [''living'', ''hall'', ''kitchen''] = 1"
    by (simp_all add: count_clusters_def count_from.simps bfs.simps neighbours_def corridor_def)
  with count_clusters_counted [OF wf(1) d sym]
    count_clusters_counted [OF wf(2), unfolded adj, OF d sym]
  have n: "card (components (adjacency_edges (adjacency corridor)) (counted corridor)) = 2"
    "card (components (adjacency_edges (adjacency corridor)) (counted corridor_full)) = 1"
    by (simp_all add: inc adj)
  have t: "total_estimated (state corridor) = 1" "total_estimated (state corridor_full) = 2"
    by (simp_all add: corridor_def corridor_full_def)
  have e: "(''living'', ''hall'') \<in> adjacency_edges (adjacency corridor)"
    unfolding corridor_edges by simp
  from total_counts_clusters [OF wf(1) d sym]
    total_counts_clusters [OF wf(2), unfolded adj, OF d sym]
    wf d sym c n t e
  show ?thesis
    by (auto simp: clamp_total_def adj)
qed

section \<open>Manual overrides: the specification\<close>

lemma counted_totals_applied: "counted (totals_applied g) = counted g"
  by (simp add: counted_def totals_applied_frame)

lemma forced_others:
  "s \<noteq> sid \<Longrightarrow> map_of (scores (state (forced g now sid occ score))) s = map_of (scores (state g)) s"
  "s \<noteq> sid \<Longrightarrow> map_of (occupied (state (forced g now sid occ score))) s = map_of (occupied (state g)) s"
  "s \<noteq> sid \<Longrightarrow>
     map_of (last_event_ts (state (forced g now sid occ score))) s = map_of (last_event_ts (state g)) s"
  by (simp_all add: forced_def Let_def map_of_update_other)

lemma forced_state_only: "forced g now sid occ score = g\<lparr>state := state (forced g now sid occ score)\<rparr>"
  by (simp add: forced_def Let_def)

lemma totals_applied_state_only: "totals_applied g = g\<lparr>state := state (totals_applied g)\<rparr>"
  by (simp add: totals_applied_def)

text \<open>
  C9. On a well-formed engine whose adjacency dict has distinct keys and symmetric
  edges, \<^verbatim>\<open>force_space_state\<close> returns an update that carries the requested reason
  (\<open>ATTR_REASON_FORCED\<close> when the caller gives none) and the state it leaves. For a known
  space the applied score is the given score clamped to \<open>[0, 1]\<close>, with 1 or 0 from \<open>occ\<close>
  when no score is given; the space is occupied outright when \<open>occ\<close> holds and otherwise
  exactly when the applied score exceeds the threshold; \<open>last_event_ts\<close> is stamped with
  the clock only when \<open>occ\<close> holds; the entries of the other spaces stay as they were.
  The totals are then recomputed from the new occupancy: each space counts 1 if it is
  occupied and 0 if not, and the total is 0 if no space counts and otherwise the number
  of components of the counted spaces, floored at 1 and clamped to the previous total plus
  1. Nothing but the state changes, and the space is the one changed entry. For an unknown
  space the engine is returned as it was, with no changed entry.
\<close>

theorem force_space_state_spec:
  assumes "engine_wf g" "distinct (map fst (adjacency g))" "sym (adjacency_edges (adjacency g))"
  shows "\<exists>u g'. force_space_state g now sid occ score rsn = Inr (u, g')
     \<and> reason u = rsn \<and> upd_state u = state g'
     \<and> (if has_key sid (spaces g) then
          score_of (state g') sid
            = max 0 (min 1 (case score of Some s \<Rightarrow> s | None \<Rightarrow> if occ then 1 else 0))
          \<and> map_of (occupied (state g')) sid
            = Some (if occ then True else score_of (state g') sid > decay_threshold g)
          \<and> map_of (last_event_ts (state g')) sid
            = (if occ then Some (At now) else map_of (last_event_ts (state g)) sid)
          \<and> (\<forall>s. s \<noteq> sid \<longrightarrow>
                map_of (scores (state g')) s = map_of (scores (state g)) s
                \<and> map_of (occupied (state g')) s = map_of (occupied (state g)) s
                \<and> map_of (last_event_ts (state g')) s = map_of (last_event_ts (state g)) s)
          \<and> space_counts (state g')
            = map (\<lambda>(s, _). (s, if (s, True) \<in> set (occupied (state g')) then 1 else 0))
                (spaces g)
          \<and> total_estimated (state g')
            = (if counted g' = {} then 0
               else clamp_total (total_estimated (state g))
                      (max (int (card (components (adjacency_edges (adjacency g)) (counted g'))))
                         1))
          \<and> g' = g\<lparr>state := state g'\<rparr>
          \<and> changed u = [sid] \<and> upd_space u = Some sid
        else g' = g \<and> changed u = [] \<and> upd_space u = None)"
proof (cases "has_key sid (spaces g)")
  case True
  let ?f = "forced g now sid occ score"
  have wf: "engine_wf ?f" by (rule forced_wf [OF assms(1) True])
  have adj: "adjacency ?f = adjacency g" by (simp add: forced_def Let_def)
  have sc: "score_of (state ?f) sid
      = max 0 (min 1 (case score of Some s \<Rightarrow> s | None \<Rightarrow> if occ then 1 else 0))"
    by (simp add: forced_def Let_def score_of_def map_of_update_same)
  have oc: "map_of (occupied (state ?f)) sid
      = Some (if occ then True else score_of (state ?f) sid > decay_threshold g)"
    unfolding sc by (simp add: forced_def Let_def map_of_update_same)
  have ts: "map_of (last_event_ts (state ?f)) sid
      = (if occ then Some (At now) else map_of (last_event_ts (state g)) sid)"
    by (simp add: forced_def Let_def map_of_update_same)
  have tot: "next_total ?f
      = (if counted ?f = {} then 0
         else clamp_total (total_estimated (state g))
                (max (int (card (components (adjacency_edges (adjacency g)) (counted ?f)))) 1))"
    using next_total_components [OF wf] assms(2,3) by (simp add: adj forced_total)
  have so: "totals_applied ?f = g\<lparr>state := state (totals_applied ?f)\<rparr>"
    using totals_applied_state_only [of ?f] forced_state_only [of g now sid occ score]
    by (metis engine.surjective engine.update_convs(9))
  have fr: "spaces ?f = spaces g" by (simp add: forced_def Let_def)
  show ?thesis
    unfolding force_space_state_known [OF assms(1) True]
    using True sc oc ts tot so
    by (simp add: make_update_def totals_applied_frame score_of_totals_applied
        totals_applied_counts counted_totals_applied forced_others fr)
next
  case False
  then show ?thesis
    by (simp add: force_space_state_unknown make_update_def)
qed

text \<open>
  The witness forces the kitchen of the two rooms and then, on the engine so left, the
  living room. The door joins the two rooms: the second call leaves the total at 1.
\<close>

definition kitchen_held :: engine where
  "kitchen_held = demo_engine
     \<lparr>state := \<lparr>occupied = [(''living'', False), (''kitchen'', True)],
        scores = [(''living'', 0), (''kitchen'', 9 / 10)],
        total_estimated = 1,
        last_event_ts = [(''living'', NegInf), (''kitchen'', At 5)],
        space_counts = [(''living'', 0), (''kitchen'', 1)]\<rparr>\<rparr>"

lemma demo_edges:
  "adjacency_edges (adjacency demo_engine) = {(''living'', ''kitchen''), (''kitchen'', ''living'')}"
  unfolding demo_engine_def by (simp add: adjacency_edges_simps) blast

theorem force_space_state_spec_witness:
  "engine_wf demo_engine \<and> distinct (map fst (adjacency demo_engine))
   \<and> sym (adjacency_edges (adjacency demo_engine))
   \<and> (\<exists>u. force_space_state demo_engine 5 ''kitchen'' True (Some (9 / 10)) ATTR_REASON_FORCED
             = Inr (u, kitchen_held)
          \<and> reason u = ''manual_override'' \<and> changed u = [''kitchen''])
   \<and> score_of (state kitchen_held) ''kitchen'' = 9 / 10
   \<and> counted kitchen_held = {''kitchen''}
   \<and> total_estimated (state kitchen_held) = 1
   \<and> (\<exists>u g'. force_space_state kitchen_held 7 ''living'' True None ATTR_REASON_FORCED
                = Inr (u, g')
          \<and> counted g' = {''living'', ''kitchen''}
          \<and> (''living'', ''kitchen'') \<in> adjacency_edges (adjacency g')
          \<and> space_counts (state g') = [(''living'', 1), (''kitchen'', 1)]
          \<and> total_estimated (state g') = 1)"
proof -
  have wf: "engine_wf demo_engine" "engine_wf kitchen_held"
    by (simp_all add: engine_wf_def state_keys_def demo_engine_def demo_state_def
        kitchen_held_def)
  have d: "distinct (map fst (adjacency demo_engine))" by (simp add: demo_engine_def)
  have adj: "adjacency kitchen_held = adjacency demo_engine" by (simp add: kitchen_held_def)
  have sym: "sym (adjacency_edges (adjacency demo_engine))"
    unfolding demo_edges by (auto simp: sym_def)
  have k: "has_key ''kitchen'' (spaces demo_engine)" "has_key ''living'' (spaces kitchen_held)"
    by (simp_all add: has_key_def demo_engine_def kitchen_held_def)
  have f1: "\<exists>u. force_space_state demo_engine 5 ''kitchen'' True (Some (9 / 10))
                  ATTR_REASON_FORCED = Inr (u, kitchen_held)
               \<and> reason u = ''manual_override'' \<and> changed u = [''kitchen'']"
    by (simp add: engine_eval demo_defs kitchen_held_def const_defs reason_defs)
  have c1: "counted kitchen_held = {''kitchen''}"
    unfolding counted_included [OF wf(2)]
    by (simp add: included_ids_def occupied_spaces_def kitchen_held_def demo_defs)
  have s1: "score_of (state kitchen_held) ''kitchen'' = 9 / 10"
    "total_estimated (state kitchen_held) = 1"
    by (simp_all add: score_of_def kitchen_held_def)
  from force_space_state_spec [OF wf(2), unfolded adj, OF d sym, of 7 "''living''" True None
      ATTR_REASON_FORCED] k(2)
  obtain u g' where r:
    "force_space_state kitchen_held 7 ''living'' True None ATTR_REASON_FORCED = Inr (u, g')"
    "g' = kitchen_held\<lparr>state := state g'\<rparr>"
    by auto
  have "\<exists>u g'. force_space_state kitchen_held 7 ''living'' True None ATTR_REASON_FORCED
                = Inr (u, g')
          \<and> occupied (state g') = [(''living'', True), (''kitchen'', True)]
          \<and> spaces g' = spaces demo_engine \<and> adjacency g' = adjacency demo_engine
          \<and> state_keys (state g') [''living'', ''kitchen'']
          \<and> space_counts (state g') = [(''living'', 1), (''kitchen'', 1)]
          \<and> total_estimated (state g') = 1"
    by (simp add: engine_eval demo_defs kitchen_held_def const_defs state_keys_def)
  with r(1) have e:
    "occupied (state g') = [(''living'', True), (''kitchen'', True)]"
    "spaces g' = spaces demo_engine" "adjacency g' = adjacency demo_engine"
    "state_keys (state g') [''living'', ''kitchen'']"
    "space_counts (state g') = [(''living'', 1), (''kitchen'', 1)]"
    "total_estimated (state g') = 1"
    by auto
  have wf': "engine_wf g'" using e(2,4) by (simp add: engine_wf_def demo_engine_def)
  have "counted g' = {''living'', ''kitchen''}"
    unfolding counted_included [OF wf']
    by (simp add: included_ids_def occupied_spaces_def e(1,2)) (simp add: demo_defs)
  moreover have "(''living'', ''kitchen'') \<in> adjacency_edges (adjacency g')"
    unfolding e(3) demo_edges by simp
  ultimately show ?thesis
    using wf(1) d sym f1 c1 s1 r(1) e(5,6) by blast
qed

section \<open>The states of a run\<close>

text \<open>
  The engines a caller can hold: the one \<^verbatim>\<open>__init__\<close> builds, and the one every public
  method leaves when it returns. Each of them is well formed, has a symmetric adjacency
  and a total that is not negative.
\<close>

inductive reachable :: "engine \<Rightarrow> bool" where
  reachable_init:
    "init_engine sps lks threshold = Inr g \<Longrightarrow> reachable g"
| reachable_set_model:
    "reachable g \<Longrightarrow> set_model g sps lks = Inr g' \<Longrightarrow> reachable g'"
| reachable_reset_state:
    "reachable g \<Longrightarrow> reachable (reset_state g)"
| reachable_current_state:
    "reachable g \<Longrightarrow> current_state g now = (st, g') \<Longrightarrow> reachable g'"
| reachable_process_event:
    "reachable g \<Longrightarrow> process_event g ev = Inr (u, g') \<Longrightarrow> reachable g'"
| reachable_force_space_state:
    "reachable g \<Longrightarrow> force_space_state g now sid occ score rsn = Inr (u, g') \<Longrightarrow> reachable g'"
| reachable_set_space_inclusion:
    "reachable g \<Longrightarrow> set_space_inclusion g sid incl = Inr g' \<Longrightarrow> reachable g'"

definition engine_ok :: "engine \<Rightarrow> bool" where
  "engine_ok g \<longleftrightarrow>
     engine_wf g \<and> adjacency_symmetric (adjacency g) \<and> 0 \<le> total_estimated (state g)"

lemma set_model_ok: "set_model g sps lks = Inr g' \<Longrightarrow> engine_ok g'"
  unfolding engine_ok_def
  using set_model_wf [of g sps lks g'] set_model_adjacency_symmetric [of g sps lks g']
  by (auto simp: set_model_result reset_state_def)

lemma reset_state_ok: "engine_ok g \<Longrightarrow> engine_ok (reset_state g)"
  unfolding engine_ok_def
  using reset_state_wf [of g]
  by (simp add: engine_wf_def) (simp add: reset_state_def)

lemma apply_decay_ok: "engine_ok g \<Longrightarrow> engine_ok (apply_decay now g)"
  by (simp add: engine_ok_def apply_decay_wf apply_decay_frame)

lemma totals_applied_ok:
  "engine_wf g \<Longrightarrow> adjacency_symmetric (adjacency g) \<Longrightarrow> 0 \<le> total_estimated (state g)
   \<Longrightarrow> engine_ok (totals_applied g)"
  using next_total_bounds [of g]
  by (simp add: engine_ok_def totals_applied_wf totals_applied_frame)

lemma dispatched_adjacency: "adjacency (dispatched g et tid ev) = adjacency g"
  by (simp add: dispatched_def Let_def dispatch_frame apply_decay_frame)

lemma forced_adjacency: "adjacency (forced g now sid occ score) = adjacency g"
  by (simp add: forced_def Let_def)

lemma process_event_ok:
  assumes "engine_ok g" "process_event g ev = Inr (u, g')"
  shows "engine_ok g'"
proof (cases "map_of (entity_index g) (entity_id ev)")
  case None
  with assms apply_decay_ok [OF assms(1), of "timestamp ev"] show ?thesis
    by (auto simp: process_event_unknown)
next
  case (Some p)
  obtain et tid where p: "p = (et, tid)" by (cases p)
  from assms(1) have wf: "engine_wf g" by (simp add: engine_ok_def)
  show ?thesis
  proof (cases "short_pulse ev")
    case True
    with Some p assms apply_decay_ok [OF assms(1), of "timestamp ev"] show ?thesis
      by (auto simp: process_event_short)
  next
    case False
    from assms(1) have "engine_ok (totals_applied (dispatched g et tid ev))"
      by (intro totals_applied_ok)
         (simp_all add: engine_ok_def dispatched_wf dispatched_adjacency dispatched_total)
    with False Some p assms(2) wf show ?thesis
      by (auto simp: process_event_dispatched)
  qed
qed

lemma force_space_state_ok:
  assumes "engine_ok g" "force_space_state g now sid occ score rsn = Inr (u, g')"
  shows "engine_ok g'"
proof (cases "has_key sid (spaces g)")
  case True
  from assms(1) have wf: "engine_wf g" by (simp add: engine_ok_def)
  from assms(1) True have "engine_ok (totals_applied (forced g now sid occ score))"
    by (intro totals_applied_ok)
       (simp_all add: engine_ok_def forced_wf forced_adjacency forced_total)
  with assms(2) show ?thesis
    by (auto simp: force_space_state_known [OF wf True])
next
  case False
  with assms show ?thesis by (auto simp: force_space_state_unknown)
qed

lemma set_space_inclusion_ok:
  assumes "engine_ok g" "set_space_inclusion g sid incl = Inr g'"
  shows "engine_ok g'"
proof (cases "map_of (spaces g) sid")
  case None
  with assms show ?thesis by (simp add: set_space_inclusion_def)
next
  case (Some sp)
  define g1 where
    "g1 = g\<lparr>spaces := AList.update sid (sp\<lparr>include_in_total := incl\<rparr>) (spaces g)\<rparr>"
  from Some have "sid \<in> set (map fst (spaces g))"
    by (metis map_of_eq_None_iff option.distinct(1) set_map)
  then have k: "map fst (spaces g1) = map fst (spaces g)"
    by (simp add: g1_def keys_update_present)
  with assms(1) have wf: "engine_wf g1"
    by (simp add: engine_ok_def engine_wf_def) (simp add: g1_def)
  from assms(1) have "adjacency_symmetric (adjacency g1)" "0 \<le> total_estimated (state g1)"
    by (simp_all add: engine_ok_def g1_def)
  with wf have "engine_ok (totals_applied g1)" by (intro totals_applied_ok)
  with Some recalculate_totals_wf [OF wf] assms(2) show ?thesis
    by (simp add: set_space_inclusion_def g1_def)
qed

lemma reachable_ok: "reachable g \<Longrightarrow> engine_ok g"
proof (induction rule: reachable.induct)
  case (reachable_init sps lks threshold g)
  then show ?case by (simp add: init_engine_def set_model_ok)
next
  case (reachable_set_model g sps lks g')
  then show ?case by (simp add: set_model_ok)
next
  case (reachable_reset_state g)
  then show ?case by (simp add: reset_state_ok)
next
  case (reachable_current_state g now st g')
  then show ?case by (auto simp: current_state_def Let_def apply_decay_ok)
next
  case (reachable_process_event g ev u g')
  then show ?case by (simp add: process_event_ok)
next
  case (reachable_force_space_state g now sid occ score rsn u g')
  then show ?case by (simp add: force_space_state_ok)
next
  case (reachable_set_space_inclusion g sid incl g')
  then show ?case by (simp add: set_space_inclusion_ok)
qed

text \<open>
  The graph of a state of a run: the adjacency dict has one entry for each space, and
  its edges are the links whose two endpoints are spaces, in both directions. Its keys
  are therefore distinct and its edges symmetric.
\<close>

definition graph_ok :: "engine \<Rightarrow> bool" where
  "graph_ok g \<longleftrightarrow>
     map fst (adjacency g) = map fst (spaces g) \<and> adjacency_edges (adjacency g) = link_edges g"

lemma graph_ok_frame:
  assumes "graph_ok g" "adjacency g' = adjacency g" "links g' = links g"
    "map fst (spaces g') = map fst (spaces g)"
  shows "graph_ok g'"
proof -
  from assms(4) have "endpoints_known lk (spaces g') = endpoints_known lk (spaces g)" for lk
    by (simp add: endpoints_known_def has_key_def)
  then have "link_edges g' = link_edges g" by (simp add: link_edges_def assms(3))
  with assms show ?thesis by (simp add: graph_ok_def)
qed

lemma dispatched_frame:
  "spaces (dispatched g et tid ev) = spaces g" "links (dispatched g et tid ev) = links g"
  by (simp_all add: dispatched_def Let_def dispatch_frame apply_decay_frame)

lemma process_event_graph:
  assumes "engine_wf g" "graph_ok g" "process_event g ev = Inr (u, g')"
  shows "graph_ok g'"
proof (cases "map_of (entity_index g) (entity_id ev)")
  case None
  with assms(3) have "g' = apply_decay (timestamp ev) g" by (simp add: process_event_unknown)
  with assms(2) show ?thesis by (auto intro: graph_ok_frame simp: apply_decay_frame)
next
  case (Some p)
  obtain et tid where p: "p = (et, tid)" by (cases p)
  show ?thesis
  proof (cases "short_pulse ev")
    case True
    with Some p assms(3) have "g' = apply_decay (timestamp ev) g"
      by (simp add: process_event_short)
    with assms(2) show ?thesis by (auto intro: graph_ok_frame simp: apply_decay_frame)
  next
    case False
    with Some p assms(1,3) have "g' = totals_applied (dispatched g et tid ev)"
      by (simp add: process_event_dispatched)
    with assms(2) show ?thesis
      by (auto intro: graph_ok_frame
          simp: totals_applied_frame dispatched_frame dispatched_adjacency)
  qed
qed

lemma force_space_state_graph:
  assumes "engine_wf g" "graph_ok g" "force_space_state g now sid occ score rsn = Inr (u, g')"
  shows "graph_ok g'"
proof (cases "has_key sid (spaces g)")
  case True
  with assms(1,3) have "g' = totals_applied (forced g now sid occ score)"
    by (simp add: force_space_state_known)
  with assms(2) show ?thesis
    by (auto intro: graph_ok_frame simp: totals_applied_frame forced_def Let_def)
next
  case False
  with assms(2,3) show ?thesis by (simp add: force_space_state_unknown)
qed

lemma set_space_inclusion_graph:
  assumes "engine_wf g" "graph_ok g" "set_space_inclusion g sid incl = Inr g'"
  shows "graph_ok g'"
proof (cases "map_of (spaces g) sid")
  case None
  with assms(2,3) show ?thesis by (simp add: set_space_inclusion_def)
next
  case (Some sp)
  define g1 where
    "g1 = g\<lparr>spaces := AList.update sid (sp\<lparr>include_in_total := incl\<rparr>) (spaces g)\<rparr>"
  from Some have "sid \<in> set (map fst (spaces g))"
    by (metis map_of_eq_None_iff option.distinct(1) set_map)
  then have k: "map fst (spaces g1) = map fst (spaces g)"
    by (simp add: g1_def keys_update_present)
  with assms(1) have wf: "engine_wf g1"
    by (simp add: engine_wf_def) (simp add: g1_def)
  from Some recalculate_totals_wf [OF wf] assms(3) have "g' = totals_applied g1"
    by (simp add: set_space_inclusion_def g1_def)
  with assms(2) k show ?thesis
    by (auto intro: graph_ok_frame simp: totals_applied_frame g1_def)
qed

lemma reachable_graph: "reachable g \<Longrightarrow> graph_ok g"
proof (induction rule: reachable.induct)
  case (reachable_init sps lks threshold g)
  then show ?case
    using set_model_adjacency [of "empty_engine threshold" sps lks g]
    by (simp add: init_engine_def graph_ok_def)
next
  case (reachable_set_model g sps lks g')
  then show ?case
    using set_model_adjacency [of g sps lks g'] by (simp add: graph_ok_def)
next
  case (reachable_reset_state g)
  then show ?case by (auto intro: graph_ok_frame simp: reset_state_def)
next
  case (reachable_current_state g now st g')
  then show ?case
    by (auto intro: graph_ok_frame simp: current_state_def Let_def apply_decay_frame)
next
  case (reachable_process_event g ev u g')
  from reachable_ok [OF reachable_process_event(1)] have "engine_wf g"
    by (simp add: engine_ok_def)
  from process_event_graph [OF this reachable_process_event(3,2)] show ?case .
next
  case (reachable_force_space_state g now sid occ score rsn u g')
  from reachable_ok [OF reachable_force_space_state(1)] have "engine_wf g"
    by (simp add: engine_ok_def)
  from force_space_state_graph [OF this reachable_force_space_state(3,2)] show ?case .
next
  case (reachable_set_space_inclusion g sid incl g')
  from reachable_ok [OF reachable_set_space_inclusion(1)] have "engine_wf g"
    by (simp add: engine_ok_def)
  from set_space_inclusion_graph [OF this reachable_set_space_inclusion(3,2)] show ?case .
qed

lemma reachable_adjacency:
  assumes "reachable g"
  shows "distinct (map fst (adjacency g))" "sym (adjacency_edges (adjacency g))"
proof -
  from reachable_graph [OF assms] have k: "map fst (adjacency g) = map fst (spaces g)"
    and e: "adjacency_edges (adjacency g) = link_edges g"
    by (simp_all add: graph_ok_def)
  from reachable_ok [OF assms] have "distinct (map fst (spaces g))"
    by (simp add: engine_ok_def engine_wf_def)
  with k show "distinct (map fst (adjacency g))" by simp
  from e show "sym (adjacency_edges (adjacency g))" by (simp add: link_edges_sym)
qed

text \<open>
  A model with a porch and \<open>n\<close> rooms without doors. Forcing the rooms occupied one after
  the other at time 0 raises the total by one at each call; a reading \<open>off\<close> of the porch
  sensor at time 1000, when every score has decayed to 0, empties them all at once.
\<close>

definition room_id :: "nat \<Rightarrow> string" where
  "room_id i = replicate (Suc i) CHR ''r''"

definition room :: "nat \<Rightarrow> space" where
  "room i = \<lparr>space_id = room_id i, space_name = room_id i, include_in_total = True,
     space_motion_entities = [], presence_entities = [], timeout_s = 60\<rparr>"

definition porch :: space where
  "porch = \<lparr>space_id = ''porch'', space_name = ''Porch'', include_in_total = True,
     space_motion_entities = [''porch_motion''], presence_entities = [], timeout_s = 60\<rparr>"

definition hotel :: "nat \<Rightarrow> space list" where
  "hotel n = porch # map room [0..<n]"

lemma room_id_inj: "room_id i = room_id j \<longleftrightarrow> i = j"
  by (simp add: room_id_def replicate_eq_replicate del: replicate_Suc)

lemma room_id_not_porch: "room_id i \<noteq> ''porch''" "''porch'' \<noteq> room_id i"
  by (simp_all add: room_id_def)

lemma update_fresh: "k \<notin> fst ` set d \<Longrightarrow> AList.update k v d = d @ [(k, v)]"
  by (induction d) auto

lemma fold_update_distinct:
  "distinct (map key xs) \<Longrightarrow> key ` set xs \<inter> fst ` set d = {} \<Longrightarrow>
     fold (\<lambda>x. AList.update (key x) x) xs d = d @ map (\<lambda>x. (key x, x)) xs"
proof (induction xs arbitrary: d)
  case Nil
  then show ?case by simp
next
  case (Cons x xs)
  from Cons.prems have f: "key x \<notin> fst ` set d" by auto
  from Cons.prems have "key ` set xs \<inter> fst ` set (d @ [(key x, x)]) = {}" by auto
  with Cons.prems Cons.IH [of "d @ [(key x, x)]"] show ?case
    by (simp add: update_fresh [OF f])
qed

lemma index_by_distinct:
  "distinct (map key xs) \<Longrightarrow> index_by key xs = map (\<lambda>x. (key x, x)) xs"
  using fold_update_distinct [of key xs "[]"] by (simp add: index_by_def)

lemma hotel_ids: "map space_id (hotel n) = ''porch'' # map room_id [0..<n]"
  by (simp add: hotel_def porch_def room_def comp_def)

lemma hotel_distinct: "distinct (map space_id (hotel n))"
proof -
  have "inj_on room_id (set [0..<n])" by (simp add: inj_on_def room_id_inj)
  then have "distinct (map room_id [0..<n])" by (simp add: distinct_map)
  moreover have "''porch'' \<notin> set (map room_id [0..<n])"
    by (auto simp: room_id_not_porch)
  ultimately show ?thesis unfolding hotel_ids by simp
qed

lemma hotel_spaces: "index_by space_id (hotel n) = map (\<lambda>sp. (space_id sp, sp)) (hotel n)"
  by (rule index_by_distinct [OF hotel_distinct])

lemma register_room: "register_space (room i) idx = idx"
  by (simp add: register_space_def index_entities_def sorted_unique_def room_def)

lemma fold_register_rooms: "fold register_space (map room is) idx = idx"
  by (induction "is" arbitrary: idx) (simp_all add: register_room)

lemma hotel_index:
  "fold register_space (hotel n) [] = [(''porch_motion'', (''space'', ''porch''))]"
  by (simp add: hotel_def fold_register_rooms)
     (simp add: register_space_def index_entities_def sorted_unique_def porch_def)

definition rooms_forced :: "nat \<Rightarrow> nat \<Rightarrow> engine \<Rightarrow> bool" where
  "rooms_forced n k g \<longleftrightarrow>
     reachable g
     \<and> map fst (spaces g) = ''porch'' # map room_id [0..<n]
     \<and> (\<forall>sid sp. map_of (spaces g) sid = Some sp \<longrightarrow> include_in_total sp \<and> timeout_s sp = 60)
     \<and> (\<forall>a. neighbours (adjacency g) a = [])
     \<and> map_of (entity_index g) ''porch_motion'' = Some (''space'', ''porch'')
     \<and> decay_threshold g = DEFAULT_DECAY_THRESHOLD
     \<and> total_estimated (state g) = int k
     \<and> (\<forall>sid. map_of (occupied (state g)) sid = Some True \<longleftrightarrow> sid \<in> room_id ` {..<k})
     \<and> (\<forall>sid. map_of (occupied (state g)) sid = Some True \<longrightarrow> score_of (state g) sid = 1)
     \<and> (\<forall>sid. stamp_of (state g) sid = NegInf \<or> stamp_of (state g) sid = At 0)"

lemma hotel_init:
  "\<exists>g. init_engine (hotel n) [] DEFAULT_DECAY_THRESHOLD = Inr g \<and> rooms_forced n 0 g"
proof -
  define g where
    "g = reset_state ((empty_engine DEFAULT_DECAY_THRESHOLD)
           \<lparr>spaces := index_by space_id (hotel n), links := index_by link_id [],
            adjacency := fst (build_tables (hotel n) []),
            entity_index := snd (build_tables (hotel n) [])\<rparr>)"
  have i: "init_engine (hotel n) [] DEFAULT_DECAY_THRESHOLD = Inr g"
    by (simp add: init_engine_def set_model_result g_def)
  then have r: "reachable g" by (rule reachable_init)
  have sp: "spaces g = map (\<lambda>sp. (space_id sp, sp)) (hotel n)"
    by (simp add: g_def reset_state_def hotel_spaces)
  have k: "map fst (spaces g) = ''porch'' # map room_id [0..<n]"
    by (simp add: sp comp_def hotel_ids [symmetric])
  have p: "include_in_total s \<and> timeout_s s = 60" if "map_of (spaces g) sid = Some s" for sid s
  proof -
    from that have "(sid, s) \<in> set (spaces g)" by (rule map_of_SomeD)
    then have "s \<in> set (hotel n)" by (auto simp: sp)
    then show ?thesis by (auto simp: hotel_def porch_def room_def)
  qed
  have adj: "adjacency g = map (\<lambda>(sid, _). (sid, [])) (index_by space_id (hotel n))"
    by (simp add: g_def reset_state_def build_tables_def index_by_def)
  have nb: "neighbours (adjacency g) a = []" for a
    by (simp add: adj neighbours_def map_of_const_map)
  have "map snd (index_by space_id (hotel n)) = hotel n"
    by (simp add: hotel_spaces comp_def)
  then have idx: "entity_index g = [(''porch_motion'', (''space'', ''porch''))]"
    by (simp add: g_def reset_state_def build_tables_def hotel_index) (simp add: index_by_def)
  have thr: "decay_threshold g = DEFAULT_DECAY_THRESHOLD"
    by (simp add: g_def reset_state_def empty_engine_def)
  have st: "total_estimated (state g) = 0"
    "map_of (occupied (state g)) sid \<noteq> Some True"
    "stamp_of (state g) sid = NegInf" for sid
    by (simp_all add: g_def reset_state_def stamp_of_def map_of_const_map)
  from r k p nb idx thr st have "rooms_forced n 0 g"
    unfolding rooms_forced_def by simp
  with i show ?thesis by blast
qed

lemma no_edges_clusters:
  assumes "\<And>a. neighbours adj a = []"
  shows "card (clusters adj S) = card S"
proof -
  have "linked adj S = {}" by (simp add: linked_def assms)
  then have "cluster_of adj S a = {a}" for a by (simp add: cluster_of_def)
  then have "clusters adj S = (\<lambda>a. {a}) ` S" by (simp add: clusters_def)
  then show ?thesis by (simp add: card_image)
qed

lemma forced_frame:
  "spaces (forced g now sid occ score) = spaces g"
  "entity_index (forced g now sid occ score) = entity_index g"
  "decay_threshold (forced g now sid occ score) = decay_threshold g"
  by (simp_all add: forced_def Let_def)

lemma forced_occupied_view:
  "map_of (occupied (state (forced g now sid True None))) s
     = (if s = sid then Some True else map_of (occupied (state g)) s)"
  "score_of (state (forced g now sid True None)) s
     = (if s = sid then 1 else score_of (state g) s)"
  "stamp_of (state (forced g now sid True None)) s
     = (if s = sid then At now else stamp_of (state g) s)"
  by (simp_all add: forced_def Let_def score_of_def stamp_of_def update_conv')

lemma stamp_of_totals_applied: "stamp_of (state (totals_applied g)) s = stamp_of (state g) s"
  by (simp add: stamp_of_def totals_applied_frame)

lemma rooms_forced_step:
  assumes "rooms_forced n k g" "k < n"
  shows "\<exists>u g'. force_space_state g 0 (room_id k) True None rsn = Inr (u, g')
     \<and> rooms_forced n (Suc k) g'"
proof -
  let ?f = "forced g 0 (room_id k) True None"
  let ?g' = "totals_applied ?f"
  from assms(1) have r: "reachable g"
    and keys: "map fst (spaces g) = ''porch'' # map room_id [0..<n]"
    and props: "\<And>sid sp. map_of (spaces g) sid = Some sp \<Longrightarrow> include_in_total sp \<and> timeout_s sp = 60"
    and nb: "\<And>a. neighbours (adjacency g) a = []"
    and idx: "map_of (entity_index g) ''porch_motion'' = Some (''space'', ''porch'')"
    and thr: "decay_threshold g = DEFAULT_DECAY_THRESHOLD"
    and tot: "total_estimated (state g) = int k"
    and occ: "\<And>sid. map_of (occupied (state g)) sid = Some True \<longleftrightarrow> sid \<in> room_id ` {..<k}"
    and sc: "\<And>sid. map_of (occupied (state g)) sid = Some True \<Longrightarrow> score_of (state g) sid = 1"
    and stp: "\<And>sid. stamp_of (state g) sid = NegInf \<or> stamp_of (state g) sid = At 0"
    unfolding rooms_forced_def by blast+
  from reachable_ok [OF r] have wf: "engine_wf g" and sym: "adjacency_symmetric (adjacency g)"
    by (simp_all add: engine_ok_def)
  have "set (map fst (spaces g)) = insert ''porch'' (room_id ` {0..<n})"
    unfolding keys by simp
  then have ks: "fst ` set (spaces g) = insert ''porch'' (room_id ` {0..<n})"
    by simp
  from assms(2) have hk: "has_key (room_id k) (spaces g)"
    by (simp add: has_key_def ks)
  have fs: "force_space_state g 0 (room_id k) True None rsn
      = Inr (make_update ?g' [room_id k] rsn None (Some (room_id k)) None, ?g')"
    by (rule force_space_state_known [OF wf hk])
  then have r': "reachable ?g'" by (rule reachable_force_space_state [OF r])
  have wff: "engine_wf ?f" by (rule forced_wf [OF wf hk])
  have occ': "map_of (occupied (state ?f)) sid = Some True \<longleftrightarrow> sid \<in> room_id ` {..<Suc k}" for sid
    by (auto simp: forced_occupied_view occ lessThan_Suc)
  have inc: "set (included_ids ?f) = room_id ` {..<Suc k}"
  proof -
    have "\<exists>sp. map_of (spaces g) sid = Some sp \<and> include_in_total sp"
      if "sid \<in> room_id ` {..<Suc k}" for sid
    proof -
      from that assms(2) have "sid \<in> fst ` set (spaces g)"
        unfolding ks by auto
      then obtain sp where "map_of (spaces g) sid = Some sp"
        by (metis map_of_eq_None_iff not_Some_eq)
      with props show ?thesis by blast
    qed
    then show ?thesis
      unfolding included_ids_set [OF wff] by (auto simp: occ' forced_frame)
  qed
  have card: "card (room_id ` {..<Suc k}) = Suc k"
    by (simp add: card_image inj_on_def room_id_inj del: lessThan_Suc)
  have ne: "included_ids ?f \<noteq> []"
    using inc by (auto simp del: lessThan_Suc)
  have "count_clusters (adjacency ?f) (included_ids ?f) = int (Suc k)"
    using count_clusters_components [OF sym, of "included_ids ?f"]
    by (simp add: forced_adjacency inc no_edges_clusters [OF nb] card del: lessThan_Suc)
  then have nt: "next_total ?f = int (Suc k)"
    by (simp add: next_total_def ne forced_total tot clamp_total_def)
  have sc': "map_of (occupied (state ?f)) sid = Some True \<Longrightarrow> score_of (state ?f) sid = 1"
    for sid
    using sc [of sid] by (simp add: forced_occupied_view split: if_splits)
  have stp': "stamp_of (state ?f) sid = NegInf \<or> stamp_of (state ?f) sid = At 0" for sid
    using stp [of sid] by (simp add: forced_occupied_view)
  have "rooms_forced n (Suc k) ?g'"
    unfolding rooms_forced_def
    using r' keys props nb idx thr nt occ' sc' stp'
    by (simp add: totals_applied_frame forced_frame forced_adjacency
        score_of_totals_applied stamp_of_totals_applied del: lessThan_Suc)
  with fs show ?thesis by blast
qed

lemma rooms_forced_reach: "k \<le> n \<Longrightarrow> \<exists>g. rooms_forced n k g"
proof (induction k)
  case 0
  from hotel_init [of n] show ?case by blast
next
  case (Suc k)
  then obtain g where "rooms_forced n k g" by auto
  from rooms_forced_step [OF this, of ATTR_REASON_FORCED] Suc.prems show ?case by auto
qed

lemma rooms_forced_empty:
  assumes "rooms_forced n k g"
  shows "\<exists>u g'. process_event g (sensor_event ''porch_motion'' ''off'' 1000) = Inr (u, g')
     \<and> total_estimated (state g') = 0"
proof -
  let ?ev = "sensor_event ''porch_motion'' ''off'' 1000"
  let ?d = "apply_decay 1000 g"
  from assms have r: "reachable g"
    and props: "\<And>sid sp. map_of (spaces g) sid = Some sp \<Longrightarrow> include_in_total sp \<and> timeout_s sp = 60"
    and idx: "map_of (entity_index g) ''porch_motion'' = Some (''space'', ''porch'')"
    and thr: "decay_threshold g = DEFAULT_DECAY_THRESHOLD"
    and sc: "\<And>sid. map_of (occupied (state g)) sid = Some True \<Longrightarrow> score_of (state g) sid = 1"
    and stp: "\<And>sid. stamp_of (state g) sid = NegInf \<or> stamp_of (state g) sid = At 0"
    unfolding rooms_forced_def by blast+
  from reachable_ok [OF r] have wf: "engine_wf g" by (simp add: engine_ok_def)
  then have dist: "distinct (map fst (spaces g))" by (simp add: engine_wf_def)
  have ev: "entity_id ?ev = ''porch_motion''" "timestamp ?ev = 1000" "\<not> short_pulse ?ev"
    "\<not> is_on_state (new_state ?ev)"
    by (simp_all add: sensor_event_def short_pulse_def lower_literals)
  have dd: "dispatched g ''space'' ''porch'' ?ev = ?d"
    by (simp add: dispatched_def dispatch_def ev)
  have tgt: "decay_target 1000 (stamp_of (state g) sid) sp = 0"
    if "map_of (spaces g) sid = Some sp" for sid sp
    using props [OF that] stp [of sid]
    by (auto simp: decay_target_def)
  have no: "map_of (occupied (state ?d)) sid \<noteq> Some True"
    if "map_of (spaces g) sid = Some sp" for sid sp
  proof (cases "map_of (occupied (state g)) sid = Some True")
    case True
    from sc [OF this] show ?thesis
      by (simp add: apply_decay_occupied [OF dist] that tgt [OF that] thr
          DEFAULT_DECAY_THRESHOLD_def)
  next
    case False
    then show ?thesis
      by (simp add: apply_decay_occupied [OF dist] that tgt [OF that] thr
          DEFAULT_DECAY_THRESHOLD_def)
  qed
  have "set (included_ids ?d) = {}"
    unfolding included_ids_set [OF apply_decay_wf [OF wf]]
    using no by (auto simp: apply_decay_frame)
  then have "next_total ?d = 0" by (simp add: next_total_def)
  then show ?thesis
    using process_event_dispatched [OF wf, of ?ev "''space''" "''porch''"] idx ev
    by (simp add: dd totals_applied_frame)
qed

lemma reachable_total_can_drop:
  "\<exists>g ev u g'. reachable g \<and> total_estimated (state g) = int n
     \<and> process_event g ev = Inr (u, g') \<and> total_estimated (state g') = 0"
proof -
  from rooms_forced_reach [of n n] obtain g where g: "rooms_forced n n g" by auto
  then have "reachable g" "total_estimated (state g) = int n"
    by (simp_all add: rooms_forced_def)
  with rooms_forced_empty [OF g] show ?thesis by blast
qed

section \<open>The smoothing of the total\<close>

lemma force_space_state_total_bound:
  assumes "engine_wf g" "0 \<le> total_estimated (state g)"
  shows "\<exists>u g'. force_space_state g now sid occ score rsn = Inr (u, g')
     \<and> 0 \<le> total_estimated (state g')
     \<and> total_estimated (state g') \<le> total_estimated (state g) + 1"
proof (cases "has_key sid (spaces g)")
  case True
  from assms(2) have "0 \<le> total_estimated (state (forced g now sid occ score))"
    by (simp add: forced_total)
  from next_total_bounds [OF this] show ?thesis
    by (simp add: force_space_state_known [OF assms(1) True] totals_applied_frame forced_total)
next
  case False
  with assms(2) show ?thesis
    by (simp add: force_space_state_unknown)
qed

text \<open>
  C3. On a well-formed engine whose total is not negative (every state of a run is one),
  a call of \<^verbatim>\<open>process_event\<close> or of \<^verbatim>\<open>force_space_state\<close> returns, and the total it leaves
  is at least 0 and at most the previous total plus 1. No bound holds downwards: whatever
  \<open>n\<close>, some run reaches a state with total \<open>n\<close> that one call of \<^verbatim>\<open>process_event\<close> takes
  to total 0.
\<close>

theorem total_estimated_step:
  assumes "engine_wf g" "0 \<le> total_estimated (state g)"
  shows "(\<exists>u g'. process_event g ev = Inr (u, g')
            \<and> 0 \<le> total_estimated (state g')
            \<and> total_estimated (state g') \<le> total_estimated (state g) + 1)
       \<and> (\<exists>u g'. force_space_state g now sid occ score rsn = Inr (u, g')
            \<and> 0 \<le> total_estimated (state g')
            \<and> total_estimated (state g') \<le> total_estimated (state g) + 1)
       \<and> (\<forall>n. \<exists>g0 ev0 u0 g0'. reachable g0 \<and> total_estimated (state g0) = int n
            \<and> process_event g0 ev0 = Inr (u0, g0') \<and> total_estimated (state g0') = 0)"
proof -
  from process_event_total [OF assms(1), of ev]
  obtain u g' where p: "process_event g ev = Inr (u, g')" by blast
  from process_event_total_bound [OF assms p] p
  have "\<exists>u g'. process_event g ev = Inr (u, g')
            \<and> 0 \<le> total_estimated (state g')
            \<and> total_estimated (state g') \<le> total_estimated (state g) + 1"
    by blast
  with force_space_state_total_bound [OF assms] reachable_total_can_drop show ?thesis
    by blast
qed


text \<open>
  The witness is the run of the two rooms: after the two motions the total is 2, and the
  single call at time 1000 takes it to 0.
\<close>

lemma apart_both_wf: "engine_wf apart_both"
  by (simp add: engine_wf_def state_keys_def apart_both_def apart_def demo_engine_def)

lemma apart_both_reachable: "reachable apart_both"
proof -
  have "reachable apart" by (rule reachable_init [OF apart_init])
  moreover from apart_step1 obtain u1 where
    "process_event apart (sensor_event ''living_motion'' ''on'' 0) = Inr (u1, apart_living)"
    by blast
  ultimately have "reachable apart_living" by (rule reachable_process_event)
  moreover from apart_step2 obtain u2 where
    "process_event apart_living (sensor_event ''kitchen_motion'' ''on'' 1) = Inr (u2, apart_both)"
    by blast
  ultimately show ?thesis by (rule reachable_process_event)
qed

theorem total_estimated_step_witness:
  "reachable apart_both \<and> engine_wf apart_both \<and> total_estimated (state apart_both) = 2
   \<and> (\<exists>u g'. process_event apart_both (sensor_event ''kitchen_motion'' ''off'' 1000)
                = Inr (u, g')
          \<and> total_estimated (state g') = 0
          \<and> total_estimated (state g') \<le> total_estimated (state apart_both) + 1)"
proof -
  have t: "total_estimated (state apart_both) = 2" "total_estimated (state apart_empty) = 0"
    by (simp_all add: apart_both_def apart_empty_def)
  then have "0 \<le> total_estimated (state apart_both)" by simp
  from total_estimated_step [OF apart_both_wf this,
      of "sensor_event ''kitchen_motion'' ''off'' 1000"] apart_step3 t apart_both_wf
    apart_both_reachable
  show ?thesis by auto
qed

end
